theory Spec2Isabelle
  imports Complex_Main
begin

section \<open>Values of the notebooks: floating-point numbers and Python errors\<close>

text \<open>
  Both notebooks (\<^verbatim>\<open>Illicit_Discharge_Tracking_Tayl.ipynb\<close> and
  \<^verbatim>\<open>TaylorTracerExp.ipynb\<close>) compute on numpy \<^verbatim>\<open>float64\<close> arrays.  A float is
  modelled as a real number or one of the three special values of IEEE arithmetic.
  Rounding and overflow of finite values are not modelled: a finite operation on finite
  operands is the exact operation on reals.  A zero is taken as positive zero.

  With numpy's default error state, a division by zero and an invalid operation (the
  square root of a negative number, \<^verbatim>\<open>inf * 0\<close>, \<^verbatim>\<open>0 / 0\<close>) print a
  \<^verbatim>\<open>RuntimeWarning\<close> and yield \<^verbatim>\<open>inf\<close> or \<^verbatim>\<open>nan\<close>: they raise nothing.
\<close>

datatype npfloat = Fin real | PInf | NInf | NaN

datatype error = IndexError | NameError | ValueError | RuntimeError

fun is_Fin :: "npfloat \<Rightarrow> bool" where
  "is_Fin (Fin a) = True"
| "is_Fin PInf = False"
| "is_Fin NInf = False"
| "is_Fin NaN = False"

fun np_neg :: "npfloat \<Rightarrow> npfloat" where
  "np_neg (Fin a) = Fin (- a)"
| "np_neg PInf = NInf"
| "np_neg NInf = PInf"
| "np_neg NaN = NaN"

fun np_abs :: "npfloat \<Rightarrow> npfloat" where
  "np_abs (Fin a) = Fin \<bar>a\<bar>"
| "np_abs PInf = PInf"
| "np_abs NInf = PInf"
| "np_abs NaN = NaN"

fun np_add :: "npfloat \<Rightarrow> npfloat \<Rightarrow> npfloat" where
  "np_add (Fin a) (Fin b) = Fin (a + b)"
| "np_add NaN y = NaN"
| "np_add x NaN = NaN"
| "np_add PInf NInf = NaN"
| "np_add NInf PInf = NaN"
| "np_add PInf y = PInf"
| "np_add NInf y = NInf"
| "np_add x PInf = PInf"
| "np_add x NInf = NInf"

definition np_sub :: "npfloat \<Rightarrow> npfloat \<Rightarrow> npfloat" where
  "np_sub x y = np_add x (np_neg y)"

text \<open>An infinity times a finite number: \<^verbatim>\<open>inf * 0\<close> is \<^verbatim>\<open>nan\<close>.\<close>

definition inf_times :: "npfloat \<Rightarrow> real \<Rightarrow> npfloat" where
  "inf_times i c = (if c = 0 then NaN else if 0 < c then i else np_neg i)"

fun np_mul :: "npfloat \<Rightarrow> npfloat \<Rightarrow> npfloat" where
  "np_mul (Fin a) (Fin b) = Fin (a * b)"
| "np_mul NaN y = NaN"
| "np_mul x NaN = NaN"
| "np_mul PInf (Fin c) = inf_times PInf c"
| "np_mul NInf (Fin c) = inf_times NInf c"
| "np_mul (Fin c) PInf = inf_times PInf c"
| "np_mul (Fin c) NInf = inf_times NInf c"
| "np_mul PInf PInf = PInf"
| "np_mul PInf NInf = NInf"
| "np_mul NInf PInf = NInf"
| "np_mul NInf NInf = PInf"

fun np_div :: "npfloat \<Rightarrow> npfloat \<Rightarrow> npfloat" where
  "np_div (Fin a) (Fin b) =
     (if b = 0 then (if a = 0 then NaN else if 0 < a then PInf else NInf)
      else Fin (a / b))"
| "np_div NaN y = NaN"
| "np_div x NaN = NaN"
| "np_div (Fin a) PInf = Fin 0"
| "np_div (Fin a) NInf = Fin 0"
| "np_div PInf (Fin b) = (if 0 \<le> b then PInf else NInf)"
| "np_div NInf (Fin b) = (if 0 \<le> b then NInf else PInf)"
| "np_div PInf PInf = NaN"
| "np_div PInf NInf = NaN"
| "np_div NInf PInf = NaN"
| "np_div NInf NInf = NaN"

fun np_sqrt :: "npfloat \<Rightarrow> npfloat" where
  "np_sqrt (Fin a) = (if a < 0 then NaN else Fin (sqrt a))"
| "np_sqrt PInf = PInf"
| "np_sqrt NInf = NaN"
| "np_sqrt NaN = NaN"

fun np_exp :: "npfloat \<Rightarrow> npfloat" where
  "np_exp (Fin a) = Fin (exp a)"
| "np_exp PInf = PInf"
| "np_exp NInf = Fin 0"
| "np_exp NaN = NaN"


text \<open>Comparisons: every comparison with \<^verbatim>\<open>nan\<close> is false.\<close>

fun np_less :: "npfloat \<Rightarrow> npfloat \<Rightarrow> bool" where
  "np_less (Fin a) (Fin b) = (a < b)"
| "np_less NaN y = False"
| "np_less x NaN = False"
| "np_less NInf NInf = False"
| "np_less NInf y = True"
| "np_less x NInf = False"
| "np_less PInf y = False"
| "np_less x PInf = True"

definition np_greater :: "npfloat \<Rightarrow> npfloat \<Rightarrow> bool" where
  "np_greater x y = np_less y x"

section \<open>The Forward Model: \<^verbatim>\<open>taylorU\<close> and \<^verbatim>\<open>taylor2nd\<close>\<close>

text \<open>
  \<^verbatim>\<open>
  def taylorU(t,M,U,K,x):
      Cp = (M/(A*sqrt(4*pi*K*t)))*exp(-(x-U*t)**2/(4*K*t))
      return Cp # returns C in mg/L
  \<close>
  \<^verbatim>\<open>t\<close> is an array and the expression is evaluated element by element; the area
  \<^verbatim>\<open>A\<close> is a global of the notebook and is a parameter here.  The scalars and the
  times are finite floats.
\<close>

definition taylor_point :: "real \<Rightarrow> real \<Rightarrow> real \<Rightarrow> real \<Rightarrow> real \<Rightarrow> real \<Rightarrow> npfloat" where
  "taylor_point M U K A x t =
     np_mul
       (np_div (Fin M) (np_mul (Fin A) (np_sqrt (Fin (4 * pi * K * t)))))
       (np_exp (np_div (np_neg (Fin ((x - U * t)\<^sup>2))) (Fin (4 * K * t))))"

definition taylorU :: "real \<Rightarrow> real list \<Rightarrow> real \<Rightarrow> real \<Rightarrow> real \<Rightarrow> real \<Rightarrow> npfloat list" where
  "taylorU A t M U K x = map (taylor_point M U K A x) t"

text \<open>
  \<^verbatim>\<open>
  def taylor2nd(t,K,U): #Taylor Solution as a function of K and U
      Cp = (M/(A*sqrt(4*pi*K*t)))*exp(-(x-U*t)**2/(4*K*t))
      return Cp # returns C in mg/L
  \<close>
  The same expression in the tracer notebook, where \<^verbatim>\<open>M\<close>, \<^verbatim>\<open>A\<close> and \<^verbatim>\<open>x\<close>
  are globals.
\<close>

definition taylor2nd :: "real \<Rightarrow> real \<Rightarrow> real \<Rightarrow> real list \<Rightarrow> real \<Rightarrow> real \<Rightarrow> npfloat list" where
  "taylor2nd M A x t K U = map (taylor_point M U K A x) t"

text \<open>The closed formula of the specification, on reals.\<close>

definition taylor_formula :: "real \<Rightarrow> real \<Rightarrow> real \<Rightarrow> real \<Rightarrow> real \<Rightarrow> real \<Rightarrow> real" where
  "taylor_formula M U K A x t =
     M / (A * sqrt (4 * pi * K * t)) * exp (- (x - U * t)\<^sup>2 / (4 * K * t))"

section \<open>Arrays\<close>

text \<open>
  \<^verbatim>\<open>linspace(start, stop, num)\<close>: \<^verbatim>\<open>num\<close> evenly spaced samples, the step being
  \<^verbatim>\<open>(stop - start) / (num - 1)\<close>; one sample is \<^verbatim>\<open>start\<close> alone.
\<close>

definition linspace :: "real \<Rightarrow> real \<Rightarrow> nat \<Rightarrow> real list" where
  "linspace start stop num =
     map (\<lambda>i. start + real i * ((stop - start) / real (num - 1))) [0..<num]"

text \<open>\<^verbatim>\<open>a[i]\<close> for an index that is not negative: out of range it raises \<^verbatim>\<open>IndexError\<close>.\<close>

definition item :: "'a list \<Rightarrow> nat \<Rightarrow> error + 'a" where
  "item a i = (if i < length a then Inr (a ! i) else Inl IndexError)"

text \<open>
  \<^verbatim>\<open>amax\<close> propagates \<^verbatim>\<open>nan\<close> and raises \<^verbatim>\<open>ValueError\<close> on an empty array;
  \<^verbatim>\<open>argmax\<close> is the first index of the maximum (of the first \<^verbatim>\<open>nan\<close>, if there is one).
\<close>

fun np_maximum :: "npfloat \<Rightarrow> npfloat \<Rightarrow> npfloat" where
  "np_maximum NaN y = NaN"
| "np_maximum x NaN = NaN"
| "np_maximum x y = (if np_less x y then y else x)"

definition amax :: "npfloat list \<Rightarrow> error + npfloat" where
  "amax C = (case C of [] \<Rightarrow> Inl ValueError | c # cs \<Rightarrow> Inr (foldl np_maximum c cs))"

fun first_index :: "('a \<Rightarrow> bool) \<Rightarrow> 'a list \<Rightarrow> nat option" where
  "first_index P [] = None"
| "first_index P (x # xs) = (if P x then Some 0 else map_option Suc (first_index P xs))"

definition argmax :: "npfloat list \<Rightarrow> error + nat" where
  "argmax C =
     (case amax C of
        Inl e \<Rightarrow> Inl e
      | Inr m \<Rightarrow> (case first_index (\<lambda>c. c = m) C of None \<Rightarrow> Inl ValueError | Some i \<Rightarrow> Inr i))"

text \<open>
  \<^verbatim>\<open>nonzero(C > thr)[0][0]\<close>: the first index whose element exceeds the threshold.
  When no element does, the array of matches is empty and its element \<open>0\<close> raises
  \<^verbatim>\<open>IndexError\<close>.
\<close>

definition first_above :: "npfloat list \<Rightarrow> npfloat \<Rightarrow> error + nat" where
  "first_above C thr =
     (case first_index (\<lambda>c. np_greater c thr) C of None \<Rightarrow> Inl IndexError | Some i \<Rightarrow> Inr i)"

section \<open>The Conductivity-to-Concentration Converter\<close>




section \<open>The Curve Characterizer\<close>

subsection \<open>The regression\<close>

text \<open>
  \<^verbatim>\<open>smf.ols(formula='C_obs ~ t_sec', data=result).fit().params.t_sec\<close> is a call of the
  statsmodels library: the coefficient of \<open>t\<close> in the least-squares fit of a line with
  an intercept.  On finite data with at least two different times the fit is unique and
  its slope is the quotient below.  What the library answers on other data (fewer than
  two different times, an infinite value) is a parameter \<open>lib\<close> of the model.
\<close>

definition mean :: "real list \<Rightarrow> real" where
  "mean xs = sum_list xs / real (length xs)"

definition Sxx :: "(real \<times> real) list \<Rightarrow> real" where
  "Sxx ps = (\<Sum>p\<leftarrow>ps. (fst p - mean (map fst ps))\<^sup>2)"

definition Sxy :: "(real \<times> real) list \<Rightarrow> real" where
  "Sxy ps = (\<Sum>p\<leftarrow>ps. (fst p - mean (map fst ps)) * (snd p - mean (map snd ps)))"

fun finite_rows :: "(real \<times> npfloat) list \<Rightarrow> (real \<times> real) list option" where
  "finite_rows [] = Some []"
| "finite_rows ((t, Fin c) # rs) = map_option (\<lambda>ps. (t, c) # ps) (finite_rows rs)"
| "finite_rows ((t, c) # rs) = None"

type_synonym ols_library = "(real \<times> npfloat) list \<Rightarrow> error + npfloat"

definition ols_slope :: "ols_library \<Rightarrow> (real \<times> npfloat) list \<Rightarrow> error + npfloat" where
  "ols_slope lib rows =
     (case finite_rows rows of
        None \<Rightarrow> lib rows
      | Some ps \<Rightarrow> if Sxx ps = 0 then lib rows else Inr (Fin (Sxy ps / Sxx ps)))"


text \<open>The sum of squared residuals of the line \<open>a + b t\<close>.\<close>

definition sse :: "(real \<times> real) list \<Rightarrow> real \<Rightarrow> real \<Rightarrow> real" where
  "sse ps a b = (\<Sum>p\<leftarrow>ps. (snd p - (a + b * fst p))\<^sup>2)"

subsection \<open>The rising front\<close>

text \<open>
  The same block stands three times in the notebook: on the observed curve, in the
  body of the search loop and after the search.
  \<^verbatim>\<open>
  indx1 = nonzero(C_obs > ClowerD*Cmax)[0][0]
  indx2 = nonzero(C_obs > CupperD*Cmax)[0][0]
  t1 = t[indx1]
  t2 = t[indx2]
  poop = np.where(np.logical_and(t>=t1, t<=t2))
  Lt = t[poop]
  LC = C_obs[poop]
  datat=pd.DataFrame(Lt, columns=['t_sec'])
  dataC=pd.DataFrame(LC, columns=['C_obs'])
  result = pd.concat([datat, dataC], axis=1)
  lm = smf.ols(formula='C_obs ~ t_sec', data=result).fit()
  dCdtreg1 = lm.params.t_sec
  \<close>
  The two-point slope \<^verbatim>\<open>dCdtmeas1\<close> of the observed block is only printed and is left
  out.
\<close>

record front =
  indx1 :: nat
  indx2 :: nat
  rows :: "(real \<times> npfloat) list"
  dCdtreg :: npfloat

definition where_between :: "real list \<Rightarrow> real \<Rightarrow> real \<Rightarrow> nat list" where
  "where_between t lo hi = filter (\<lambda>i. lo \<le> t ! i \<and> t ! i \<le> hi) [0..<length t]"

definition take_rows :: "real list \<Rightarrow> npfloat list \<Rightarrow> nat list \<Rightarrow> error + (real \<times> npfloat) list" where
  "take_rows t C poop =
     (if list_all (\<lambda>i. i < length C) poop then Inr (map (\<lambda>i. (t ! i, C ! i)) poop)
      else Inl IndexError)"

definition front_slope ::
  "ols_library \<Rightarrow> real list \<Rightarrow> npfloat list \<Rightarrow> npfloat \<Rightarrow> real \<Rightarrow> real \<Rightarrow> error + front" where
  "front_slope lib t C Cmax ClowerD CupperD =
     (case first_above C (np_mul (Fin ClowerD) Cmax) of Inl e \<Rightarrow> Inl e | Inr i1 \<Rightarrow>
      case first_above C (np_mul (Fin CupperD) Cmax) of Inl e \<Rightarrow> Inl e | Inr i2 \<Rightarrow>
      case item t i1 of Inl e \<Rightarrow> Inl e | Inr t1 \<Rightarrow>
      case item t i2 of Inl e \<Rightarrow> Inl e | Inr t2 \<Rightarrow>
      case take_rows t C (where_between t t1 t2) of Inl e \<Rightarrow> Inl e | Inr result \<Rightarrow>
      case ols_slope lib result of Inl e \<Rightarrow> Inl e | Inr b \<Rightarrow>
        Inr \<lparr>indx1 = i1, indx2 = i2, rows = result, dCdtreg = b\<rparr>)"

text \<open>
  The characterization of a curve as the loop body does it: \<^verbatim>\<open>Cmax = amax(Csyn)\<close>,
  then the block.
\<close>

definition characterize ::
  "ols_library \<Rightarrow> real list \<Rightarrow> npfloat list \<Rightarrow> real \<Rightarrow> real \<Rightarrow> error + front" where
  "characterize lib t C ClowerD CupperD =
     (case amax C of Inl e \<Rightarrow> Inl e | Inr Cmax \<Rightarrow> front_slope lib t C Cmax ClowerD CupperD)"

text \<open>
  The observed curve: before the block, the notebook finds the start of the front and
  the time of the peak.
  \<^verbatim>\<open>
  Cmax = amax(C_obs) # maximum concentration observed
  tstart = t[nonzero(C_obs > 0.01*Cmax)[0][0]] # time location of the initial front
  tpeak = t[argmax(C_obs)] # time of the peak
  \<close>
\<close>

record observed =
  obs_Cmax :: npfloat
  obs_tstart :: real
  obs_tpeak :: real
  obs_front :: front

definition observed_front ::
  "ols_library \<Rightarrow> real list \<Rightarrow> npfloat list \<Rightarrow> real \<Rightarrow> real \<Rightarrow> error + observed" where
  "observed_front lib t C ClowerD CupperD =
     (case amax C of Inl e \<Rightarrow> Inl e | Inr m \<Rightarrow>
      case first_above C (np_mul (Fin 0.01) m) of Inl e \<Rightarrow> Inl e | Inr i0 \<Rightarrow>
      case item t i0 of Inl e \<Rightarrow> Inl e | Inr ts \<Rightarrow>
      case argmax C of Inl e \<Rightarrow> Inl e | Inr ip \<Rightarrow>
      case item t ip of Inl e \<Rightarrow> Inl e | Inr tp \<Rightarrow>
      case front_slope lib t C m ClowerD CupperD of Inl e \<Rightarrow> Inl e | Inr fr \<Rightarrow>
        Inr \<lparr>obs_Cmax = m, obs_tstart = ts, obs_tpeak = tp, obs_front = fr\<rparr>)"

section \<open>The Slope-Matching Estimator\<close>

text \<open>
  \<^verbatim>\<open>
  N = 1000
  xrange = linspace(1,1000,N) # synthetic distance 1 --> 1000 meters
  MMM = 50
  Msyn = linspace(M-M*.30,M+M*.30,MMM) # +/- 35% of approximated mass
  diffi = 10
  for i in range(1,N):
      for j in range(1,MMM):
          tend = 10*(xrange[i]/U)
          tsyn = linspace(1,tend, N)
          Csyn = taylorU(tsyn,Msyn[j],U,K,xrange[i])
          Cmax = amax(Csyn)
          ...                         # the block of the rising front, on tsyn and Csyn
          dCdtregsyn = lmsyn.params.t_sec
          diff = (np.abs(dCdtregsyn-dCdtreg1))
          if diff < diffi:
              diffi = diff
              XYZ = xrange[i]
              MYZ = Msyn[j]
  print('Approximate distance to upstream source (ft):', around(XYZ/ft_m, decimals = 0))
  print('Approximate mass equivalent of NaCl (g):', around(MYZ, decimals = 0))
  \<close>
  The sizes \<open>N\<close> and \<open>MMM\<close>, the ends of the distance grid, the stream's \<open>U\<close>, \<open>K\<close>,
  \<open>A\<close> and the bound fractions are settings of the notebook and parameters here.  The
  velocity \<open>U\<close> is not zero (the model divides by it as on reals).  The variables
  \<^verbatim>\<open>XYZ\<close> and \<^verbatim>\<open>MYZ\<close> exist only once the branch has assigned them: reading them
  before raises \<^verbatim>\<open>NameError\<close>.
\<close>

definition syn_slope ::
  "ols_library \<Rightarrow> nat \<Rightarrow> real \<Rightarrow> real \<Rightarrow> real \<Rightarrow> real \<Rightarrow> real \<Rightarrow> real \<Rightarrow> real \<Rightarrow> error + npfloat" where
  "syn_slope lib N U K A ClowerD CupperD x M =
     (let tend = 10 * (x / U);
          tsyn = linspace 1 tend N;
          Csyn = taylorU A tsyn M U K x
      in case characterize lib tsyn Csyn ClowerD CupperD of
           Inl e \<Rightarrow> Inl e
         | Inr fr \<Rightarrow> Inr (dCdtreg fr))"

record search_state =
  diffi :: npfloat
  XYZ :: "real option"
  MYZ :: "real option"

definition search_step ::
  "(real \<Rightarrow> real \<Rightarrow> error + npfloat) \<Rightarrow> npfloat \<Rightarrow> real list \<Rightarrow> real list
    \<Rightarrow> search_state \<Rightarrow> nat \<times> nat \<Rightarrow> error + search_state" where
  "search_step slope_at dCdtreg1 xrange Msyn st ij =
     (case item xrange (fst ij) of Inl e \<Rightarrow> Inl e | Inr x \<Rightarrow>
      case item Msyn (snd ij) of Inl e \<Rightarrow> Inl e | Inr M \<Rightarrow>
      case slope_at x M of Inl e \<Rightarrow> Inl e | Inr dCdtregsyn \<Rightarrow>
        let diff = np_abs (np_sub dCdtregsyn dCdtreg1)
        in Inr (if np_less diff (diffi st)
                then \<lparr>diffi = diff, XYZ = Some x, MYZ = Some M\<rparr>
                else st))"

text \<open>
  The value of \<^verbatim>\<open>diff\<close> that the body computes at the index pair \<open>(i, j)\<close>, with the
  distance and the mass it is computed from.
\<close>

definition diff_at ::
  "(real \<Rightarrow> real \<Rightarrow> error + npfloat) \<Rightarrow> npfloat \<Rightarrow> real list \<Rightarrow> real list
    \<Rightarrow> nat \<times> nat \<Rightarrow> error + npfloat \<times> real \<times> real" where
  "diff_at slope_at dCdtreg1 xrange Msyn ij =
     (case item xrange (fst ij) of Inl e \<Rightarrow> Inl e | Inr x \<Rightarrow>
      case item Msyn (snd ij) of Inl e \<Rightarrow> Inl e | Inr M \<Rightarrow>
      case slope_at x M of Inl e \<Rightarrow> Inl e | Inr dCdtregsyn \<Rightarrow>
        Inr (np_abs (np_sub dCdtregsyn dCdtreg1), x, M))"

text \<open>A \<^verbatim>\<open>for\<close> loop whose body may raise: the first error ends the loop.\<close>

fun for_loop :: "('s \<Rightarrow> 'i \<Rightarrow> error + 's) \<Rightarrow> 'i list \<Rightarrow> 's \<Rightarrow> error + 's" where
  "for_loop body [] st = Inr st"
| "for_loop body (i # is) st =
     (case body st i of Inl e \<Rightarrow> Inl e | Inr st' \<Rightarrow> for_loop body is st')"

text \<open>
  The index pairs of \<^verbatim>\<open>for i in range(1,N): for j in range(1,MMM):\<close> in the order the
  nested loops visit them.
\<close>

definition grid_indices :: "nat \<Rightarrow> nat \<Rightarrow> (nat \<times> nat) list" where
  "grid_indices N MMM = List.product [1..<N] [1..<MMM]"

definition grid_search ::
  "(real \<Rightarrow> real \<Rightarrow> error + npfloat) \<Rightarrow> nat \<Rightarrow> nat \<Rightarrow> npfloat \<Rightarrow> real list \<Rightarrow> real list
    \<Rightarrow> error + search_state" where
  "grid_search slope_at N MMM dCdtreg1 xrange Msyn =
     for_loop (search_step slope_at dCdtreg1 xrange Msyn) (grid_indices N MMM)
       \<lparr>diffi = Fin 10, XYZ = None, MYZ = None\<rparr>"

definition printed :: "search_state \<Rightarrow> error + real \<times> real" where
  "printed st =
     (case XYZ st of None \<Rightarrow> Inl NameError | Some x \<Rightarrow>
      case MYZ st of None \<Rightarrow> Inl NameError | Some M \<Rightarrow> Inr (x, M))"

definition slope_D ::
  "ols_library \<Rightarrow> nat \<Rightarrow> nat \<Rightarrow> real \<Rightarrow> real \<Rightarrow> real \<Rightarrow> real \<Rightarrow> real \<Rightarrow> npfloat
    \<Rightarrow> real list \<Rightarrow> real list \<Rightarrow> error + real \<times> real" where
  "slope_D lib N MMM U K A ClowerD CupperD dCdtreg1 xrange Msyn =
     (case grid_search (syn_slope lib N U K A ClowerD CupperD) N MMM dCdtreg1 xrange Msyn of
        Inl e \<Rightarrow> Inl e
      | Inr st \<Rightarrow> printed st)"


section \<open>The Nonlinear Fit Estimator\<close>

text \<open>
  \<^verbatim>\<open>
  popt, cov = curve_fit(taylor2nd, t, C, p0=[.1,0.1])
  K = popt[0] # dispersion coefficient
  U = popt[1] # averaged cross-sectional average velocity throughout stream
  \<close>
  \<^verbatim>\<open>curve_fit\<close> is scipy's optimizer, a parameter of the model: it returns the
  parameters it found or raises (\<^verbatim>\<open>RuntimeError\<close> when it does not converge).
\<close>

type_synonym optimizer =
  "(real list \<Rightarrow> real \<Rightarrow> real \<Rightarrow> npfloat list) \<Rightarrow> real list \<Rightarrow> npfloat list \<Rightarrow> real list
    \<Rightarrow> error + npfloat list"

definition optimize_K_U ::
  "optimizer \<Rightarrow> real \<Rightarrow> real \<Rightarrow> real \<Rightarrow> real list \<Rightarrow> npfloat list \<Rightarrow> error + npfloat \<times> npfloat" where
  "optimize_K_U curve_fit M A x t C =
     (case curve_fit (taylor2nd M A x) t C [0.1, 0.1] of Inl e \<Rightarrow> Inl e | Inr popt \<Rightarrow>
      case item popt 0 of Inl e \<Rightarrow> Inl e | Inr K \<Rightarrow>
      case item popt 1 of Inl e \<Rightarrow> Inl e | Inr U \<Rightarrow> Inr (K, U))"

section \<open>Properties of the Forward Model\<close>

lemma taylor_point_finite:
  assumes "0 < K * t" and "A \<noteq> 0"
  shows "taylor_point M U K A x t = Fin (taylor_formula M U K A x t)"
proof -
  have kt: "K \<noteq> 0" "t \<noteq> 0"
    using assms(1) by auto
  have "0 < 4 * pi * (K * t)"
    using assms(1) pi_gt_zero by simp
  then have pos: "0 < 4 * pi * K * t"
    by (simp only: mult.assoc)
  then have "0 < sqrt (4 * pi * K * t)"
    by (simp only: real_sqrt_gt_zero)
  then have nz: "A * sqrt (4 * pi * K * t) \<noteq> 0"
    using assms(2) by auto
  have p1: "np_sqrt (Fin (4 * pi * K * t)) = Fin (sqrt (4 * pi * K * t))"
    using pos by simp
  have p2: "np_div (Fin M) (Fin (A * sqrt (4 * pi * K * t))) = Fin (M / (A * sqrt (4 * pi * K * t)))"
    using nz by simp
  have p3: "np_div (Fin (- ((x - U * t)\<^sup>2))) (Fin (4 * K * t)) = Fin (- (x - U * t)\<^sup>2 / (4 * K * t))"
    using kt by simp
  show ?thesis
    unfolding taylor_point_def taylor_formula_def p1 np_mul.simps p2 np_neg.simps p3 np_exp.simps
    by (rule refl)
qed

lemma taylor_point_not_finite:
  assumes "K * t \<le> 0 \<or> A = 0"
  shows "\<not> is_Fin (taylor_point M U K A x t)"
proof (cases "K * t < 0")
  case True
  then have "4 * pi * (K * t) < 0"
    using pi_gt_zero by (simp add: mult_less_0_iff)
  then have "4 * pi * K * t < 0"
    by (simp only: mult.assoc)
  then have "np_sqrt (Fin (4 * pi * K * t)) = NaN"
    by simp
  then show ?thesis
    by (simp add: taylor_point_def)
next
  case False
  note not_neg = False
  show ?thesis
  proof (cases "K * t = 0")
    case True
    then have z: "4 * pi * K * t = 0" "4 * K * t = 0"
      by auto
    have first: "np_div (Fin M) (np_mul (Fin A) (np_sqrt (Fin (4 * pi * K * t)))) \<in> {NaN, PInf, NInf}"
      by (simp add: z)
    have second: "np_exp (np_div (np_neg (Fin ((x - U * t)\<^sup>2))) (Fin (4 * K * t))) \<in> {NaN, Fin 0}"
      by (simp add: z)
    have "\<not> is_Fin (np_mul a b)" if "a \<in> {NaN, PInf, NInf}" and "b \<in> {NaN, Fin 0}" for a b
      using that by (auto simp add: inf_times_def)
    from this [OF first second] show ?thesis
      unfolding taylor_point_def .
  next
    case False
    with not_neg have kt: "0 < K * t"
      by linarith
    with assms have A: "A = 0"
      by linarith
    from kt have "0 < 4 * pi * (K * t)"
      using pi_gt_zero by simp
    then have pos: "0 < 4 * pi * K * t"
      by (simp only: mult.assoc)
    have nz: "4 * K * t \<noteq> 0"
      using kt by auto
    have first: "np_div (Fin M) (np_mul (Fin A) (np_sqrt (Fin (4 * pi * K * t)))) \<in> {NaN, PInf, NInf}"
      using pos by (simp add: A)
    have second: "np_exp (np_div (np_neg (Fin ((x - U * t)\<^sup>2))) (Fin (4 * K * t)))
        = Fin (exp (- (x - U * t)\<^sup>2 / (4 * K * t)))"
      using nz by simp
    have "0 < exp (- (x - U * t)\<^sup>2 / (4 * K * t))"
      by (rule exp_gt_zero)
    moreover have "\<not> is_Fin (np_mul a (Fin c))" if "a \<in> {NaN, PInf, NInf}" and "0 < c" for a c
      using that by (auto simp add: inf_times_def)
    ultimately show ?thesis
      unfolding taylor_point_def second using first by blast
  qed
qed

text \<open>
  C2.  For a time vector of strictly positive entries and \<open>K > 0\<close>, \<open>A > 0\<close>, both
  \<^verbatim>\<open>taylorU\<close> and \<^verbatim>\<open>taylor2nd\<close> return a sequence as long as \<open>t\<close> whose \<open>i\<close>-th
  element is the finite number \<open>M / (A \<surd>(4 \<pi> K t\<^sub>i)) \<sqdot> exp (- (x - U t\<^sub>i)\<^sup>2 / (4 K t\<^sub>i))\<close>.
\<close>

theorem C2_forward_model_formula:
  assumes "\<forall>ti \<in> set t. 0 < ti" and "0 < K" and "0 < A"
  shows "length (taylorU A t M U K x) = length t
    \<and> length (taylor2nd M A x t K U) = length t
    \<and> (\<forall>i < length t.
          taylorU A t M U K x ! i
            = Fin (M / (A * sqrt (4 * pi * K * (t ! i))) * exp (- (x - U * (t ! i))\<^sup>2 / (4 * K * (t ! i))))
        \<and> taylor2nd M A x t K U ! i = taylorU A t M U K x ! i)"
proof -
  have "taylor_point M U K A x (t ! i)
      = Fin (M / (A * sqrt (4 * pi * K * (t ! i))) * exp (- (x - U * (t ! i))\<^sup>2 / (4 * K * (t ! i))))"
    if "i < length t" for i
  proof -
    have "0 < t ! i"
      using assms(1) that by simp
    then have "0 < K * (t ! i)"
      using assms(2) by simp
    moreover have "A \<noteq> 0"
      using assms(3) by simp
    ultimately show ?thesis
      unfolding taylor_formula_def [symmetric] by (rule taylor_point_finite)
  qed
  then show ?thesis
    by (simp add: taylorU_def taylor2nd_def)
qed

theorem C2_forward_model_formula_witness:
  "(0 :: real) < 1 \<and> (0 :: real) < 2
    \<and> length (taylorU 1 [1, 2] 5 1 1 3) = 2
    \<and> taylorU 1 [1, 2] 5 1 1 3 ! 1
        = Fin (5 / (1 * sqrt (4 * pi * 1 * 2)) * exp (- (3 - 1 * 2)\<^sup>2 / (4 * 1 * 2)))
    \<and> taylor2nd 5 1 3 [1, 2] 1 1 ! 1 = taylorU 1 [1, 2] 5 1 1 3 ! 1"
proof -
  have h: "\<forall>ti \<in> set [1, 2 :: real]. 0 < ti"
    by simp
  have k: "(0 :: real) < 1"
    by simp
  note inst = C2_forward_model_formula [OF h k k, of 5 1 3]
  have len: "length (taylorU 1 [1, 2] 5 1 1 3) = 2"
    using inst [THEN conjunct1] by simp
  have i: "(1 :: nat) < length [1, 2 :: real]"
    by simp
  have n: "[1, 2 :: real] ! 1 = 2"
    by simp
  note at1 = inst [THEN conjunct2, THEN conjunct2, rule_format, OF i, unfolded n]
  have k2: "(0 :: real) < 2"
    by simp
  from k k2 len at1 show ?thesis
    by (intro conjI) blast+
qed

text \<open>
  C3 (as stated, it fails).  The claim: a non-positive \<open>K\<close>, \<open>A\<close> or time makes the call
  signal an error instead of returning a value.  The function has no check and numpy
  raises nothing: at time \<open>0\<close> and at \<open>K = 0\<close> the call returns \<^verbatim>\<open>nan\<close>, at \<open>A = 0\<close> it
  returns \<^verbatim>\<open>inf\<close>, and at \<open>A = -1\<close> it returns an ordinary negative number.
\<close>

theorem C3_no_error_counterexample:
  "taylorU 1 [0] 1 1 1 1 = [NaN]
    \<and> taylorU 1 [1] 1 1 0 1 = [NaN]
    \<and> taylorU 0 [1] 1 1 1 1 = [PInf]
    \<and> taylorU (- 1) [1] 1 1 1 1 = [Fin (- (1 / sqrt (4 * pi)))]"
proof -
  have a: "taylor_point 1 1 1 1 1 0 = NaN"
    by (simp add: taylor_point_def inf_times_def)
  have b: "taylor_point 1 1 0 1 1 1 = NaN"
    by (simp add: taylor_point_def inf_times_def)
  have "0 < sqrt (4 * pi)"
    using pi_gt_zero by simp
  then have c: "taylor_point 1 1 1 0 1 1 = PInf"
    by (simp add: taylor_point_def inf_times_def)
  have "taylor_point 1 1 1 (- 1) 1 1 = Fin (taylor_formula 1 1 1 (- 1) 1 1)"
    by (rule taylor_point_finite) simp_all
  then have d: "taylor_point 1 1 1 (- 1) 1 1 = Fin (- (1 / sqrt (4 * pi)))"
    by (simp add: taylor_formula_def)
  show ?thesis
    by (simp add: taylorU_def a b c d)
qed

text \<open>
  C3 (amended).  The Forward Model signals no error for any input: it always returns a
  sequence as long as \<open>t\<close>.  Where \<open>K t\<^sub>i \<le> 0\<close> (in particular when \<open>K\<close> or \<open>t\<^sub>i\<close> is zero,
  or exactly one of them is negative) or \<open>A = 0\<close>, the \<open>i\<close>-th element is silently
  \<^verbatim>\<open>nan\<close> or infinite; everywhere else, also for a negative \<open>A\<close>, it is the finite value
  of the formula.
\<close>

theorem C3_forward_model_unchecked:
  "length (taylorU A t M U K x) = length t
    \<and> (\<forall>i < length t.
          (K * (t ! i) \<le> 0 \<or> A = 0 \<longrightarrow> \<not> is_Fin (taylorU A t M U K x ! i))
        \<and> (0 < K * (t ! i) \<and> A \<noteq> 0 \<longrightarrow>
            taylorU A t M U K x ! i
              = Fin (M / (A * sqrt (4 * pi * K * (t ! i))) * exp (- (x - U * (t ! i))\<^sup>2 / (4 * K * (t ! i))))))"
  unfolding taylor_formula_def [symmetric]
  by (simp add: taylorU_def taylor_point_not_finite taylor_point_finite)

theorem C3_forward_model_unchecked_witness:
  "length (taylorU 1 [0, 2] 1 1 (- 1) 1) = 2
    \<and> \<not> is_Fin (taylorU 1 [0, 2] 1 1 (- 1) 1 ! 0)
    \<and> \<not> is_Fin (taylorU 1 [0, 2] 1 1 (- 1) 1 ! 1)
    \<and> taylorU (- 1) [0, 2] 1 1 1 1 ! 1
        = Fin (1 / (- 1 * sqrt (4 * pi * 1 * 2)) * exp (- (1 - 1 * 2)\<^sup>2 / (4 * 1 * 2)))"
proof -
  note neg = C3_forward_model_unchecked [of 1 "[0, 2]" 1 1 "- 1" 1]
  note pos = C3_forward_model_unchecked [of "- 1" "[0, 2]" 1 1 1 1]
  have i0: "(0 :: nat) < length [0, 2 :: real]" and i1: "(1 :: nat) < length [0, 2 :: real]"
    by simp_all
  have n: "[0, 2 :: real] ! 1 = 2"
    by simp
  have one: "length (taylorU 1 [0, 2] 1 1 (- 1) 1) = 2"
    using neg [THEN conjunct1] by simp
  have two: "\<not> is_Fin (taylorU 1 [0, 2] 1 1 (- 1) 1 ! 0)"
    by (rule neg [THEN conjunct2, rule_format, OF i0, THEN conjunct1, rule_format]) simp
  have three: "\<not> is_Fin (taylorU 1 [0, 2] 1 1 (- 1) 1 ! 1)"
    by (rule neg [THEN conjunct2, rule_format, OF i1, THEN conjunct1, rule_format]) simp
  have c: "0 < 1 * ([0, 2 :: real] ! 1) \<and> (- 1 :: real) \<noteq> 0"
    by simp
  note four = pos [THEN conjunct2, rule_format, OF i1, THEN conjunct2, rule_format, OF c, unfolded n]
  from one two three four show ?thesis
    by (intro conjI)
qed

section \<open>Properties of the array operations\<close>


lemma linspace_nth:
  assumes "i < num"
  shows "linspace start stop num ! i = start + real i * ((stop - start) / real (num - 1))"
  using assms by (simp add: linspace_def)

lemma linspace_last:
  assumes "2 \<le> num"
  shows "linspace start stop num ! (num - 1) = stop"
proof -
  from assms have "num - 1 < num" and "real (num - 1) \<noteq> 0"
    by simp_all
  then show ?thesis
    by (simp add: linspace_nth)
qed

lemma linspace_step:
  assumes "Suc i < num"
  shows "linspace start stop num ! Suc i - linspace start stop num ! i
    = (stop - start) / real (num - 1)"
proof -
  define h where "h = (stop - start) / real (num - 1)"
  from assms have "i < num"
    by simp
  with assms have "linspace start stop num ! Suc i = start + real (Suc i) * h"
    and "linspace start stop num ! i = start + real i * h"
    unfolding h_def by (simp_all only: linspace_nth)
  then have "linspace start stop num ! Suc i - linspace start stop num ! i = h"
    by (simp add: algebra_simps)
  then show ?thesis
    unfolding h_def .
qed

lemma first_index_None: "first_index P xs = None \<longleftrightarrow> (\<forall>i < length xs. \<not> P (xs ! i))"
proof (induction xs)
  case Nil
  show ?case by simp
next
  case (Cons x xs)
  show ?case
    by (simp add: Cons.IH All_less_Suc2)
qed

lemma first_index_Some:
  "first_index P xs = Some i \<longleftrightarrow> i < length xs \<and> P (xs ! i) \<and> (\<forall>j < i. \<not> P (xs ! j))"
proof (induction xs arbitrary: i)
  case Nil
  show ?case by simp
next
  case (Cons x xs)
  show ?case
  proof (cases "P x")
    case True
    then show ?thesis
      by (cases i) auto
  next
    case False
    show ?thesis
    proof (cases i)
      case 0
      with False show ?thesis by simp
    next
      case (Suc k)
      with False show ?thesis
        by (auto simp add: Cons.IH All_less_Suc2)
    qed
  qed
qed

lemma first_index_mono:
  assumes "first_index Q xs = Some j" and "\<And>x. x \<in> set xs \<Longrightarrow> Q x \<Longrightarrow> P x"
  shows "\<exists>i \<le> j. first_index P xs = Some i"
proof (cases "first_index P xs")
  case None
  from assms(1) have "j < length xs" "Q (xs ! j)"
    by (simp_all add: first_index_Some)
  with assms(2) have "P (xs ! j)"
    by simp
  with None \<open>j < length xs\<close> show ?thesis
    by (simp add: first_index_None)
next
  case (Some i)
  from assms(1) have j: "j < length xs" "Q (xs ! j)"
    by (simp_all add: first_index_Some)
  with assms(2) have "P (xs ! j)"
    by simp
  moreover from Some have "\<forall>k < i. \<not> P (xs ! k)"
    by (simp add: first_index_Some)
  ultimately have "i \<le> j"
    by (meson not_le)
  with Some show ?thesis
    by simp
qed

lemma first_above_Inr:
  "first_above C thr = Inr i
    \<longleftrightarrow> i < length C \<and> np_greater (C ! i) thr \<and> (\<forall>j < i. \<not> np_greater (C ! j) thr)"
proof (cases "first_index (\<lambda>c. np_greater c thr) C")
  case None
  then have "\<forall>i < length C. \<not> np_greater (C ! i) thr"
    by (simp add: first_index_None)
  then show ?thesis
    by (auto simp add: first_above_def None)
next
  case (Some k)
  have "first_index (\<lambda>c. np_greater c thr) C = Some i
    \<longleftrightarrow> i < length C \<and> np_greater (C ! i) thr \<and> (\<forall>j < i. \<not> np_greater (C ! j) thr)"
    by (rule first_index_Some)
  then show ?thesis
    by (simp add: first_above_def Some)
qed

lemma first_above_Inl:
  "first_above C thr = Inl e \<longleftrightarrow> e = IndexError \<and> (\<forall>i < length C. \<not> np_greater (C ! i) thr)"
proof (cases "first_index (\<lambda>c. np_greater c thr) C")
  case None
  then have "\<forall>i < length C. \<not> np_greater (C ! i) thr"
    by (simp add: first_index_None)
  then show ?thesis
    by (auto simp add: first_above_def None)
next
  case (Some k)
  then have "k < length C \<and> np_greater (C ! k) thr"
    by (simp add: first_index_Some)
  then show ?thesis
    by (auto simp add: first_above_def Some)
qed

lemma np_maximum_cases: "np_maximum x y = x \<or> np_maximum x y = y"
  by (cases x; cases y) simp_all

lemma np_maximum_not_NaN:
  assumes "np_maximum x y \<noteq> NaN"
  shows "x \<noteq> NaN \<and> y \<noteq> NaN \<and> \<not> np_less (np_maximum x y) x \<and> \<not> np_less (np_maximum x y) y"
  using assms by (cases x; cases y) simp_all

lemma np_less_trans_not:
  assumes "\<not> np_less m x" and "\<not> np_less m' m" and "m \<noteq> NaN" and "m' \<noteq> NaN" and "x \<noteq> NaN"
  shows "\<not> np_less m' x"
  using assms by (cases m; cases m'; cases x) simp_all

lemma foldl_np_maximum_mem: "foldl np_maximum c cs \<in> set (c # cs)"
proof (induction cs arbitrary: c)
  case Nil
  show ?case by simp
next
  case (Cons a cs)
  have "foldl np_maximum (np_maximum c a) cs \<in> set (np_maximum c a # cs)"
    by (rule Cons.IH)
  with np_maximum_cases [of c a] show ?case
    by auto
qed

lemma foldl_np_maximum_upper:
  assumes "foldl np_maximum c cs \<noteq> NaN" and "y \<in> set (c # cs)"
  shows "y \<noteq> NaN \<and> \<not> np_less (foldl np_maximum c cs) y"
  using assms
proof (induction cs arbitrary: c y)
  case Nil
  then show ?case
    by (cases c) simp_all
next
  case (Cons a cs)
  let ?m = "np_maximum c a"
  let ?r = "foldl np_maximum ?m cs"
  from Cons.prems(1) have r: "?r \<noteq> NaN"
    by simp
  from Cons.IH [of ?m ?m, OF r] have m: "?m \<noteq> NaN" "\<not> np_less ?r ?m"
    by simp_all
  note ca = np_maximum_not_NaN [OF m(1)]
  show ?case
  proof (cases "y \<in> set cs")
    case True
    with Cons.IH [of ?m y, OF r] show ?thesis
      by simp
  next
    case False
    with Cons.prems(2) have "y = c \<or> y = a"
      by auto
    then have "y \<noteq> NaN" and "\<not> np_less ?m y"
      using ca by auto
    with m r have "\<not> np_less ?r y"
      using np_less_trans_not [of ?m y ?r] by blast
    with \<open>y \<noteq> NaN\<close> show ?thesis
      by simp
  qed
qed

lemma amax_mem:
  assumes "amax C = Inr m"
  shows "m \<in> set C"
  using assms foldl_np_maximum_mem by (auto simp add: amax_def split: list.splits)

lemma amax_upper:
  assumes "amax C = Inr m" and "m \<noteq> NaN" and "i < length C"
  shows "C ! i \<noteq> NaN \<and> \<not> np_less m (C ! i)"
proof -
  from assms(1) obtain c cs where C: "C = c # cs" and m: "m = foldl np_maximum c cs"
    by (auto simp add: amax_def split: list.splits)
  from assms(3) have "C ! i \<in> set (c # cs)"
    unfolding C [symmetric] by (rule nth_mem)
  with foldl_np_maximum_upper [of c cs "C ! i"] assms(2) show ?thesis
    by (simp add: m)
qed

lemma argmax_Inr:
  assumes "amax C = Inr m"
  shows "\<exists>ip. argmax C = Inr ip \<and> ip < length C \<and> C ! ip = m \<and> (\<forall>j < ip. C ! j \<noteq> m)"
proof -
  from amax_mem [OF assms] obtain k where "k < length C" "C ! k = m"
    by (auto simp add: in_set_conv_nth)
  then have "first_index (\<lambda>c. c = m) C \<noteq> None"
    by (auto simp add: first_index_None)
  then obtain ip where ip: "first_index (\<lambda>c. c = m) C = Some ip"
    by auto
  then have "argmax C = Inr ip"
    by (simp add: argmax_def assms)
  with ip show ?thesis
    by (simp add: first_index_Some)
qed

lemma item_Inl: "item a i = Inl e \<Longrightarrow> e = IndexError"
  by (simp add: item_def split: if_splits)

lemma item_Inr: "i < length a \<Longrightarrow> item a i = Inr (a ! i)"
  by (simp add: item_def)

section \<open>Properties of the Curve Characterizer\<close>

lemma front_slope_lower_not_found:
  assumes "\<forall>i < length C. \<not> np_greater (C ! i) (np_mul (Fin f) m)"
  shows "front_slope lib t C m f g = Inl IndexError"
proof -
  from assms have "first_above C (np_mul (Fin f) m) = Inl IndexError"
    by (simp add: first_above_Inl)
  then show ?thesis
    by (simp add: front_slope_def)
qed

lemma front_slope_upper_not_found:
  assumes "\<forall>i < length C. \<not> np_greater (C ! i) (np_mul (Fin f) m)"
  shows "front_slope lib t C m g f = Inl IndexError"
proof -
  from assms have up: "first_above C (np_mul (Fin f) m) = Inl IndexError"
    by (simp add: first_above_Inl)
  show ?thesis
  proof (cases "first_above C (np_mul (Fin g) m)")
    case (Inl e)
    then have "e = IndexError"
      by (simp add: first_above_Inl)
    with Inl show ?thesis
      by (simp add: front_slope_def)
  next
    case (Inr i1)
    with up show ?thesis
      by (simp add: front_slope_def)
  qed
qed

lemma observed_front_IndexError:
  assumes "amax C = Inr m" and "front_slope lib t C m f g = Inl IndexError"
  shows "observed_front lib t C f g = Inl IndexError"
proof -
  from argmax_Inr [OF assms(1)] obtain ip where ip: "argmax C = Inr ip"
    by blast
  have "e = IndexError" if "observed_front lib t C f g = Inl e" for e
    using that assms ip
    by (auto simp add: observed_front_def first_above_Inl split: sum.splits dest: item_Inl)
  moreover have "observed_front lib t C f g \<noteq> Inr ob" for ob
    using assms ip by (auto simp add: observed_front_def split: sum.splits)
  ultimately show ?thesis
    by (cases "observed_front lib t C f g") auto
qed

text \<open>
  C4.  When no element of the series strictly exceeds \<open>f \<sqdot> peak\<close>, the bound search for
  the fraction \<open>f\<close> fails with the \<^verbatim>\<open>IndexError\<close> of the empty list of matches, and so
  does the characterization of the curve (in the loop body and on the observed curve),
  whether \<open>f\<close> is the lower or the upper fraction: no front and no slope is returned,
  and no other error is raised.
\<close>

theorem C4_bound_not_found:
  assumes "amax C = Inr peak"
    and "\<forall>i < length C. \<not> np_greater (C ! i) (np_mul (Fin f) peak)"
  shows "first_above C (np_mul (Fin f) peak) = Inl IndexError
    \<and> characterize lib t C f g = Inl IndexError
    \<and> characterize lib t C g f = Inl IndexError
    \<and> observed_front lib t C f g = Inl IndexError
    \<and> observed_front lib t C g f = Inl IndexError"
proof -
  note lower = front_slope_lower_not_found [OF assms(2), of lib t g]
  note upper = front_slope_upper_not_found [OF assms(2), of lib t g]
  have "first_above C (np_mul (Fin f) peak) = Inl IndexError"
    using assms(2) by (simp add: first_above_Inl)
  moreover have "characterize lib t C f g = Inl IndexError"
    by (simp add: characterize_def assms(1) lower)
  moreover have "characterize lib t C g f = Inl IndexError"
    by (simp add: characterize_def assms(1) upper)
  moreover note observed_front_IndexError [OF assms(1) lower]
    observed_front_IndexError [OF assms(1) upper]
  ultimately show ?thesis
    by blast
qed

theorem C4_bound_not_found_witness:
  "first_above [Fin 0, Fin 0, Fin 0] (np_mul (Fin 0.5) (Fin 0)) = Inl IndexError
    \<and> characterize (\<lambda>r. Inr (Fin 0)) [1, 2, 3] [Fin 0, Fin 0, Fin 0] 0.5 0.999 = Inl IndexError
    \<and> observed_front (\<lambda>r. Inr (Fin 0)) [1, 2, 3] [Fin 0, Fin 0, Fin 0] 0.5 0.999 = Inl IndexError"
proof -
  have peak: "amax [Fin 0, Fin 0, Fin 0] = Inr (Fin 0)"
    by (simp add: amax_def)
  have none: "\<forall>i < length [Fin 0, Fin 0, Fin 0].
      \<not> np_greater ([Fin 0, Fin 0, Fin 0] ! i) (np_mul (Fin 0.5) (Fin 0))"
    by (simp add: np_greater_def All_less_Suc)
  from C4_bound_not_found [OF peak none, of "\<lambda>r. Inr (Fin 0)" "[1, 2, 3]" "0.999"]
  show ?thesis
    by blast
qed

section \<open>Properties of the Conductivity-to-Concentration Converter\<close>








section \<open>The regression is the least-squares line\<close>

lemma sum_list_centered:
  fixes xs :: "real list"
  shows "(\<Sum>x\<leftarrow>xs. x - mean xs) = 0"
proof (cases "xs = []")
  case True
  then show ?thesis by simp
next
  case False
  then have "real (length xs) \<noteq> 0"
    by simp
  then have "real (length xs) * mean xs = sum_list xs"
    by (simp add: mean_def)
  then show ?thesis
    by (simp add: sum_list_subtractf sum_list_triv)
qed

lemma sum_list_centered_map:
  fixes f :: "'a \<Rightarrow> real"
  shows "(\<Sum>p\<leftarrow>ps. f p - mean (map f ps)) = 0"
  using sum_list_centered [of "map f ps"] by (simp add: comp_def)

lemma residual_sums:
  fixes ps :: "(real \<times> real) list"
  defines "xb \<equiv> mean (map fst ps)" and "yb \<equiv> mean (map snd ps)"
  defines "b \<equiv> Sxy ps / Sxx ps"
  defines "r \<equiv> \<lambda>p. (snd p - yb) - b * (fst p - xb)"
  assumes "Sxx ps \<noteq> 0"
  shows "(\<Sum>p\<leftarrow>ps. r p) = 0" and "(\<Sum>p\<leftarrow>ps. r p * (fst p - xb)) = 0"
proof -
  have "(\<Sum>p\<leftarrow>ps. r p) = (\<Sum>p\<leftarrow>ps. snd p - yb) - b * (\<Sum>p\<leftarrow>ps. fst p - xb)"
    unfolding r_def by (simp add: sum_list_subtractf sum_list_const_mult)
  then show "(\<Sum>p\<leftarrow>ps. r p) = 0"
    unfolding xb_def yb_def by (simp add: sum_list_centered_map)
  have "(\<Sum>p\<leftarrow>ps. r p * (fst p - xb))
      = (\<Sum>p\<leftarrow>ps. (fst p - xb) * (snd p - yb) - b * (fst p - xb)\<^sup>2)"
    unfolding r_def by (simp add: algebra_simps power2_eq_square)
  also have "\<dots> = Sxy ps - b * Sxx ps"
    unfolding Sxy_def Sxx_def xb_def yb_def
    by (simp add: sum_list_subtractf sum_list_const_mult)
  also have "\<dots> = 0"
    unfolding b_def using assms(5) by simp
  finally show "(\<Sum>p\<leftarrow>ps. r p * (fst p - xb)) = 0" .
qed

lemma sse_decompose:
  fixes ps :: "(real \<times> real) list"
  assumes "Sxx ps \<noteq> 0"
  shows "sse ps a' b'
    = sse ps (mean (map snd ps) - Sxy ps / Sxx ps * mean (map fst ps)) (Sxy ps / Sxx ps)
      + (real (length ps) * (mean (map snd ps) - a' - b' * mean (map fst ps))\<^sup>2
         + (Sxy ps / Sxx ps - b')\<^sup>2 * Sxx ps)"
proof -
  define xb where "xb = mean (map fst ps)"
  define yb where "yb = mean (map snd ps)"
  define b where "b = Sxy ps / Sxx ps"
  define a where "a = yb - b * xb"
  define r where "r = (\<lambda>p :: real \<times> real. (snd p - yb) - b * (fst p - xb))"
  define \<beta> where "\<beta> = b - b'"
  define \<alpha> where "\<alpha> = yb - a' - b' * xb"
  define d where "d = (\<lambda>p :: real \<times> real. \<alpha> + \<beta> * (fst p - xb))"
  have r0: "(\<Sum>p\<leftarrow>ps. r p) = 0" and r1: "(\<Sum>p\<leftarrow>ps. r p * (fst p - xb)) = 0"
    unfolding r_def b_def xb_def yb_def by (rule residual_sums [OF assms])+
  have u0: "(\<Sum>p\<leftarrow>ps. fst p - xb) = 0"
    unfolding xb_def by (rule sum_list_centered_map)
  have res: "snd p - (a + b * fst p) = r p" for p
    unfolding r_def a_def by (simp add: algebra_simps)
  have res': "snd p - (a' + b' * fst p) = r p + d p" for p
    unfolding r_def d_def \<alpha>_def \<beta>_def a_def by (simp add: algebra_simps)
  have "r p * d p = \<alpha> * r p + \<beta> * (r p * (fst p - xb))" for p
    unfolding d_def by (simp add: algebra_simps)
  then have "(\<Sum>p\<leftarrow>ps. r p * d p) = (\<Sum>p\<leftarrow>ps. \<alpha> * r p + \<beta> * (r p * (fst p - xb)))"
    by simp
  also have "\<dots> = \<alpha> * (\<Sum>p\<leftarrow>ps. r p) + \<beta> * (\<Sum>p\<leftarrow>ps. r p * (fst p - xb))"
    by (simp only: sum_list_addf sum_list_const_mult)
  finally have cross: "(\<Sum>p\<leftarrow>ps. r p * d p) = 0"
    by (simp add: r0 r1)
  have "(d p)\<^sup>2 = \<alpha>\<^sup>2 + (2 * \<alpha> * \<beta>) * (fst p - xb) + \<beta>\<^sup>2 * (fst p - xb)\<^sup>2" for p
    unfolding d_def by (simp add: power2_sum algebra_simps power2_eq_square)
  then have "(\<Sum>p\<leftarrow>ps. (d p)\<^sup>2)
      = (\<Sum>p\<leftarrow>ps. \<alpha>\<^sup>2 + (2 * \<alpha> * \<beta>) * (fst p - xb) + \<beta>\<^sup>2 * (fst p - xb)\<^sup>2)"
    by simp
  also have "\<dots> = real (length ps) * \<alpha>\<^sup>2 + (2 * \<alpha> * \<beta>) * (\<Sum>p\<leftarrow>ps. fst p - xb)
      + \<beta>\<^sup>2 * (\<Sum>p\<leftarrow>ps. (fst p - xb)\<^sup>2)"
    by (simp only: sum_list_addf sum_list_const_mult sum_list_triv)
  finally have "(\<Sum>p\<leftarrow>ps. (d p)\<^sup>2) = real (length ps) * \<alpha>\<^sup>2 + (2 * \<alpha> * \<beta>) * 0
      + \<beta>\<^sup>2 * (\<Sum>p\<leftarrow>ps. (fst p - xb)\<^sup>2)"
    unfolding u0 .
  then have dd: "(\<Sum>p\<leftarrow>ps. (d p)\<^sup>2) = real (length ps) * \<alpha>\<^sup>2 + \<beta>\<^sup>2 * Sxx ps"
    unfolding Sxx_def xb_def by simp
  have "sse ps a' b' = (\<Sum>p\<leftarrow>ps. (r p)\<^sup>2 + 2 * (r p * d p) + (d p)\<^sup>2)"
    unfolding sse_def res' by (simp add: power2_sum algebra_simps)
  also have "\<dots> = (\<Sum>p\<leftarrow>ps. (r p)\<^sup>2) + 2 * (\<Sum>p\<leftarrow>ps. r p * d p) + (\<Sum>p\<leftarrow>ps. (d p)\<^sup>2)"
    by (simp add: sum_list_addf sum_list_const_mult)
  also have "\<dots> = sse ps a b + (real (length ps) * \<alpha>\<^sup>2 + \<beta>\<^sup>2 * Sxx ps)"
    unfolding sse_def res by (simp add: cross dd)
  finally show ?thesis
    unfolding a_def b_def xb_def yb_def \<alpha>_def \<beta>_def .
qed

lemma Sxx_nonneg: "0 \<le> Sxx ps"
  unfolding Sxx_def by (rule sum_list_nonneg) auto

lemma ols_least_squares:
  fixes ps :: "(real \<times> real) list"
  assumes "Sxx ps \<noteq> 0"
  shows "sse ps (mean (map snd ps) - Sxy ps / Sxx ps * mean (map fst ps)) (Sxy ps / Sxx ps)
    \<le> sse ps a' b'"
proof -
  have "0 \<le> real (length ps) * (mean (map snd ps) - a' - b' * mean (map fst ps))\<^sup>2
         + (Sxy ps / Sxx ps - b')\<^sup>2 * Sxx ps"
    using Sxx_nonneg [of ps] by simp
  then show ?thesis
    unfolding sse_decompose [OF assms, of a' b'] by simp
qed

lemma ols_unique:
  fixes ps :: "(real \<times> real) list"
  assumes "Sxx ps \<noteq> 0" and "\<forall>a' b'. sse ps a b \<le> sse ps a' b'"
  shows "b = Sxy ps / Sxx ps"
proof -
  let ?a0 = "mean (map snd ps) - Sxy ps / Sxx ps * mean (map fst ps)"
  let ?b0 = "Sxy ps / Sxx ps"
  from assms(2) have "sse ps a b \<le> sse ps ?a0 ?b0"
    by blast
  then have "real (length ps) * (mean (map snd ps) - a - b * mean (map fst ps))\<^sup>2
         + (?b0 - b)\<^sup>2 * Sxx ps \<le> 0"
    unfolding sse_decompose [OF assms(1), of a b] by simp
  moreover have "0 \<le> real (length ps) * (mean (map snd ps) - a - b * mean (map fst ps))\<^sup>2"
    by simp
  ultimately have "(?b0 - b)\<^sup>2 * Sxx ps \<le> 0"
    by linarith
  moreover have "0 < Sxx ps"
    using Sxx_nonneg [of ps] assms(1) by simp
  ultimately have "(?b0 - b)\<^sup>2 \<le> 0"
    by (simp add: mult_le_0_iff)
  then show ?thesis
    by simp
qed

section \<open>The rising front and its slope\<close>

lemma zip_as_map_nth:
  assumes "length t = length C"
  shows "zip t C = map (\<lambda>i. (t ! i, C ! i)) [0..<length t]"
  using assms by (intro nth_equalityI) simp_all

lemma rows_filter_zip:
  assumes "length t = length C"
  shows "map (\<lambda>i. (t ! i, C ! i)) (where_between t lo hi)
    = filter (\<lambda>p. lo \<le> fst p \<and> fst p \<le> hi) (zip t C)"
  unfolding zip_as_map_nth [OF assms] where_between_def filter_map
  by (simp add: comp_def)

lemma take_rows_filter_zip:
  assumes "length t = length C"
  shows "take_rows t C (where_between t lo hi)
    = Inr (filter (\<lambda>p. lo \<le> fst p \<and> fst p \<le> hi) (zip t C))"
proof -
  have "list_all (\<lambda>i. i < length C) (where_between t lo hi)"
    by (simp add: where_between_def list_all_iff assms)
  then show ?thesis
    by (simp add: take_rows_def rows_filter_zip [OF assms])
qed

lemma front_slope_found:
  assumes "length t = length C"
    and "first_above C (np_mul (Fin f) m) = Inr lo"
    and "first_above C (np_mul (Fin g) m) = Inr up"
  shows "front_slope lib t C m f g =
     (case ols_slope lib (filter (\<lambda>p. t ! lo \<le> fst p \<and> fst p \<le> t ! up) (zip t C)) of
        Inl e \<Rightarrow> Inl e
      | Inr b \<Rightarrow> Inr \<lparr>indx1 = lo, indx2 = up,
          rows = filter (\<lambda>p. t ! lo \<le> fst p \<and> fst p \<le> t ! up) (zip t C), dCdtreg = b\<rparr>)"
proof -
  from assms(2,3) have "lo < length C" and "up < length C"
    by (simp_all add: first_above_Inr)
  then have "item t lo = Inr (t ! lo)" and "item t up = Inr (t ! up)"
    by (simp_all add: item_def assms(1))
  then show ?thesis
    by (simp add: front_slope_def assms(2,3) take_rows_filter_zip [OF assms(1)])
qed

lemma ols_slope_full_rank:
  assumes "finite_rows r = Some ps" and "Sxx ps \<noteq> 0"
  shows "ols_slope lib r = Inr (Fin (Sxy ps / Sxx ps))"
  using assms by (simp add: ols_slope_def)

text \<open>
  C5.  On a series \<open>(t, C)\<close> with an element above each threshold, the characterization
  finds \<open>lo\<close>, the first index whose value exceeds \<open>lowerFraction \<sqdot> peak\<close>, and \<open>up\<close>, the
  first index whose value exceeds \<open>upperFraction \<sqdot> peak\<close>; its rising front is exactly
  the pairs of the series whose time lies in \<open>[t\<^sub>l\<^sub>o, t\<^sub>u\<^sub>p]\<close>, bounds included; and its
  slope is what the regression returns on that sub-series.  On a finite sub-series with
  two different times that slope is the coefficient \<open>b\<close> of the one line \<open>a + b t\<close>
  that minimises the sum of squared residuals.  The observed curve's characterization,
  when it returns, holds the same front.
\<close>

theorem C5_rising_front_regression:
  assumes "length t = length C"
    and "amax C = Inr peak"
    and "\<exists>i < length C. np_greater (C ! i) (np_mul (Fin lowerFraction) peak)"
    and "\<exists>i < length C. np_greater (C ! i) (np_mul (Fin upperFraction) peak)"
  shows "\<exists>lo up front.
      first_above C (np_mul (Fin lowerFraction) peak) = Inr lo
    \<and> lo < length C \<and> np_greater (C ! lo) (np_mul (Fin lowerFraction) peak)
    \<and> (\<forall>j < lo. \<not> np_greater (C ! j) (np_mul (Fin lowerFraction) peak))
    \<and> first_above C (np_mul (Fin upperFraction) peak) = Inr up
    \<and> up < length C \<and> np_greater (C ! up) (np_mul (Fin upperFraction) peak)
    \<and> (\<forall>j < up. \<not> np_greater (C ! j) (np_mul (Fin upperFraction) peak))
    \<and> front = filter (\<lambda>p. t ! lo \<le> fst p \<and> fst p \<le> t ! up) (zip t C)
    \<and> characterize lib t C lowerFraction upperFraction =
         (case ols_slope lib front of
            Inl e \<Rightarrow> Inl e
          | Inr b \<Rightarrow> Inr \<lparr>indx1 = lo, indx2 = up, rows = front, dCdtreg = b\<rparr>)
    \<and> (\<forall>ps. finite_rows front = Some ps \<and> Sxx ps \<noteq> 0 \<longrightarrow>
          characterize lib t C lowerFraction upperFraction =
            Inr \<lparr>indx1 = lo, indx2 = up, rows = front, dCdtreg = Fin (Sxy ps / Sxx ps)\<rparr>
        \<and> (\<forall>a' b'. sse ps (mean (map snd ps) - Sxy ps / Sxx ps * mean (map fst ps)) (Sxy ps / Sxx ps)
              \<le> sse ps a' b')
        \<and> (\<forall>a b. (\<forall>a' b'. sse ps a b \<le> sse ps a' b') \<longrightarrow> b = Sxy ps / Sxx ps))
    \<and> (\<forall>ob. observed_front lib t C lowerFraction upperFraction = Inr ob \<longrightarrow>
          characterize lib t C lowerFraction upperFraction = Inr (obs_front ob))"
proof -
  from assms(3) obtain lo where lo: "first_above C (np_mul (Fin lowerFraction) peak) = Inr lo"
    by (cases "first_above C (np_mul (Fin lowerFraction) peak)") (auto simp add: first_above_Inl)
  from assms(4) obtain up where up: "first_above C (np_mul (Fin upperFraction) peak) = Inr up"
    by (cases "first_above C (np_mul (Fin upperFraction) peak)") (auto simp add: first_above_Inl)
  define front where "front = filter (\<lambda>p. t ! lo \<le> fst p \<and> fst p \<le> t ! up) (zip t C)"
  note fs = front_slope_found [OF assms(1) lo up, of lib, folded front_def]
  have ch: "characterize lib t C lowerFraction upperFraction =
         (case ols_slope lib front of
            Inl e \<Rightarrow> Inl e
          | Inr b \<Rightarrow> Inr \<lparr>indx1 = lo, indx2 = up, rows = front, dCdtreg = b\<rparr>)"
    by (simp add: characterize_def assms(2) fs)
  have full: "characterize lib t C lowerFraction upperFraction =
            Inr \<lparr>indx1 = lo, indx2 = up, rows = front, dCdtreg = Fin (Sxy ps / Sxx ps)\<rparr>
        \<and> (\<forall>a' b'. sse ps (mean (map snd ps) - Sxy ps / Sxx ps * mean (map fst ps)) (Sxy ps / Sxx ps)
              \<le> sse ps a' b')
        \<and> (\<forall>a b. (\<forall>a' b'. sse ps a b \<le> sse ps a' b') \<longrightarrow> b = Sxy ps / Sxx ps)"
    if "finite_rows front = Some ps \<and> Sxx ps \<noteq> 0" for ps
  proof -
    from that have fin: "finite_rows front = Some ps" and nz: "Sxx ps \<noteq> 0"
      by simp_all
    have "characterize lib t C lowerFraction upperFraction =
            Inr \<lparr>indx1 = lo, indx2 = up, rows = front, dCdtreg = Fin (Sxy ps / Sxx ps)\<rparr>"
      unfolding ch ols_slope_full_rank [OF fin nz] by simp
    with ols_least_squares [OF nz] ols_unique [OF nz] show ?thesis
      by blast
  qed
  have obs: "characterize lib t C lowerFraction upperFraction = Inr (obs_front ob)"
    if "observed_front lib t C lowerFraction upperFraction = Inr ob" for ob
    using that
    by (auto simp add: observed_front_def characterize_def assms(2) split: sum.splits)
  from lo have "lo < length C \<and> np_greater (C ! lo) (np_mul (Fin lowerFraction) peak)
    \<and> (\<forall>j < lo. \<not> np_greater (C ! j) (np_mul (Fin lowerFraction) peak))"
    by (simp add: first_above_Inr)
  moreover from up have "up < length C \<and> np_greater (C ! up) (np_mul (Fin upperFraction) peak)
    \<and> (\<forall>j < up. \<not> np_greater (C ! j) (np_mul (Fin upperFraction) peak))"
    by (simp add: first_above_Inr)
  ultimately show ?thesis
    using lo up front_def ch full obs by blast
qed

theorem C5_rising_front_regression_witness:
  "characterize (\<lambda>r. Inl ValueError) [1, 2, 3, 4, 5, 6, 7]
      [Fin 0, Fin 2, Fin 4, Fin 6, Fin 8, Fin 10, Fin 3] 0.5 0.999
    = Inr \<lparr>indx1 = 3, indx2 = 5, rows = [(4, Fin 6), (5, Fin 8), (6, Fin 10)], dCdtreg = Fin 2\<rparr>"
proof -
  let ?t = "[1, 2, 3, 4, 5, 6, 7 :: real]"
  let ?C = "[Fin 0, Fin 2, Fin 4, Fin 6, Fin 8, Fin 10, Fin 3]"
  let ?ps = "[(4, 6), (5, 8), (6, 10)] :: (real \<times> real) list"
  have len: "length ?t = length ?C"
    by simp
  have peak: "amax ?C = Inr (Fin 10)"
    by (simp add: amax_def)
  have "(5 :: nat) < length ?C \<and> np_greater (?C ! 5) (np_mul (Fin 0.5) (Fin 10))"
    and "(5 :: nat) < length ?C \<and> np_greater (?C ! 5) (np_mul (Fin 0.999) (Fin 10))"
    by (simp_all add: np_greater_def)
  then have above: "\<exists>i < length ?C. np_greater (?C ! i) (np_mul (Fin 0.5) (Fin 10))"
    "\<exists>i < length ?C. np_greater (?C ! i) (np_mul (Fin 0.999) (Fin 10))"
    by blast+
  from C5_rising_front_regression [OF len peak above, of "\<lambda>r. Inl ValueError"]
  obtain lo up front
    where lo: "first_above ?C (np_mul (Fin 0.5) (Fin 10)) = Inr lo"
      and up: "first_above ?C (np_mul (Fin 0.999) (Fin 10)) = Inr up"
      and front: "front = filter (\<lambda>p. ?t ! lo \<le> fst p \<and> fst p \<le> ?t ! up) (zip ?t ?C)"
      and full: "\<And>ps. finite_rows front = Some ps \<and> Sxx ps \<noteq> 0 \<Longrightarrow>
          characterize (\<lambda>r. Inl ValueError) ?t ?C 0.5 0.999 =
            Inr \<lparr>indx1 = lo, indx2 = up, rows = front, dCdtreg = Fin (Sxy ps / Sxx ps)\<rparr>"
    by blast
  have "first_above ?C (np_mul (Fin 0.5) (Fin 10)) = Inr 3"
    and "first_above ?C (np_mul (Fin 0.999) (Fin 10)) = Inr 5"
    by (simp_all add: first_above_def np_greater_def)
  with lo up have idx: "lo = 3" "up = 5"
    by simp_all
  have rows: "front = [(4, Fin 6), (5, Fin 8), (6, Fin 10)]"
    unfolding front idx by simp
  have fin: "finite_rows front = Some ?ps"
    unfolding rows by simp
  have sxx: "Sxx ?ps = 2" and sxy: "Sxy ?ps = 4"
    by (simp_all add: Sxx_def Sxy_def mean_def)
  from full [of ?ps] fin sxx have
    "characterize (\<lambda>r. Inl ValueError) ?t ?C 0.5 0.999 =
       Inr \<lparr>indx1 = lo, indx2 = up, rows = front, dCdtreg = Fin (Sxy ?ps / Sxx ?ps)\<rparr>"
    by simp
  then show ?thesis
    unfolding idx rows sxx sxy by simp
qed

section \<open>Properties of the search loop\<close>

lemma np_less_irrefl: "\<not> np_less a a"
  by (cases a) simp_all

lemma np_less_trans: "np_less a b \<Longrightarrow> np_less b c \<Longrightarrow> np_less a c"
  by (cases a; cases b; cases c) simp_all

lemma np_less_asym: "np_less a b \<Longrightarrow> \<not> np_less b a"
  by (cases a; cases b) simp_all

lemma np_less_not_NaN: "np_less a b \<Longrightarrow> a \<noteq> NaN \<and> b \<noteq> NaN"
  by (cases a; cases b) simp_all

lemma np_less_total: "a \<noteq> NaN \<Longrightarrow> b \<noteq> NaN \<Longrightarrow> np_less a b \<or> a = b \<or> np_less b a"
  by (cases a; cases b) auto

lemma search_step_diff_at:
  "search_step f obs xr Ms st ij =
     (case diff_at f obs xr Ms ij of
        Inl e \<Rightarrow> Inl e
      | Inr r \<Rightarrow> Inr (if np_less (fst r) (diffi st)
                      then \<lparr>diffi = fst r, XYZ = Some (fst (snd r)), MYZ = Some (snd (snd r))\<rparr>
                      else st))"
  by (simp add: search_step_def diff_at_def Let_def split: sum.splits)

lemma for_loop_cong:
  assumes "\<And>p st. p \<in> set ps \<Longrightarrow> body1 st p = body2 st p"
  shows "for_loop body1 ps st = for_loop body2 ps st"
  using assms by (induction ps arbitrary: st) (simp_all split: sum.splits)

lemma for_loop_search_total:
  assumes "\<forall>k < length ps. \<exists>r. diff_at f obs xr Ms (ps ! k) = Inr r"
  shows "\<exists>st'. for_loop (search_step f obs xr Ms) ps st = Inr st'"
  using assms
proof (induction ps arbitrary: st)
  case Nil
  show ?case by simp
next
  case (Cons p ps)
  from Cons.prems have "\<exists>r. diff_at f obs xr Ms ((p # ps) ! 0) = Inr r"
    by blast
  then obtain r where r: "diff_at f obs xr Ms p = Inr r"
    by auto
  from Cons.prems have "\<forall>k < length ps. \<exists>r. diff_at f obs xr Ms (ps ! k) = Inr r"
    by auto
  from Cons.IH [OF this] show ?case
    by (simp add: search_step_diff_at r)
qed

lemma for_loop_search_first_error:
  assumes "k < length ps" and "diff_at f obs xr Ms (ps ! k) = Inl e"
  shows "\<exists>e'. for_loop (search_step f obs xr Ms) ps st = Inl e'"
  using assms
proof (induction ps arbitrary: st k)
  case Nil
  then show ?case by simp
next
  case (Cons p ps)
  show ?case
  proof (cases "diff_at f obs xr Ms p")
    case (Inl e0)
    then show ?thesis
      by (simp add: search_step_diff_at)
  next
    case (Inr r)
    with Cons.prems obtain j where "k = Suc j"
      by (cases k) auto
    with Cons.prems have "j < length ps" "diff_at f obs xr Ms (ps ! j) = Inl e"
      by simp_all
    from Cons.IH [OF this] show ?thesis
      by (simp add: search_step_diff_at Inr)
  qed
qed

text \<open>
  What a loop that ends without an error has done: every body has computed its
  \<^verbatim>\<open>diff\<close>; and either no \<^verbatim>\<open>diff\<close> was below the starting minimum and the state is
  unchanged, or the state holds the first grid point of least \<^verbatim>\<open>diff\<close>.
\<close>

lemma for_loop_search_result:
  assumes "for_loop (search_step f obs xr Ms) ps st = Inr st'"
  shows "(\<forall>k < length ps. \<exists>r. diff_at f obs xr Ms (ps ! k) = Inr r)
    \<and> ((st' = st \<and> (\<forall>k < length ps. \<forall>r. diff_at f obs xr Ms (ps ! k) = Inr r \<longrightarrow>
            \<not> np_less (fst r) (diffi st)))
      \<or> (\<exists>k < length ps. \<exists>d x M. diff_at f obs xr Ms (ps ! k) = Inr (d, x, M)
            \<and> st' = \<lparr>diffi = d, XYZ = Some x, MYZ = Some M\<rparr>
            \<and> np_less d (diffi st)
            \<and> (\<forall>k' < length ps. \<forall>r. diff_at f obs xr Ms (ps ! k') = Inr r \<longrightarrow>
                  \<not> np_less (fst r) d \<and> (k' < k \<longrightarrow> fst r \<noteq> d))))"
  using assms
proof (induction ps arbitrary: st)
  case Nil
  then show ?case by simp
next
  case (Cons p ps)
  let ?D = "diff_at f obs xr Ms"
  from Cons.prems obtain r where r: "?D p = Inr r"
    by (cases "?D p") (simp_all add: search_step_diff_at)
  obtain dp xp Mp where rp: "r = (dp, xp, Mp)"
    by (cases r) auto
  define st1 where "st1 = (if np_less dp (diffi st)
      then \<lparr>diffi = dp, XYZ = Some xp, MYZ = Some Mp\<rparr> else st)"
  have step: "search_step f obs xr Ms st p = Inr st1"
    unfolding search_step_diff_at [of f obs xr Ms st p] r rp st1_def by simp
  from Cons.prems have rest: "for_loop (search_step f obs xr Ms) ps st1 = Inr st'"
    unfolding for_loop.simps step by simp
  note IH = Cons.IH [OF rest]
  from IH have tail: "\<forall>k < length ps. \<exists>r. ?D (ps ! k) = Inr r"
    by blast
  have all: "\<forall>k < length (p # ps). \<exists>r. ?D ((p # ps) ! k) = Inr r"
  proof (intro allI impI)
    fix k
    assume k: "k < length (p # ps)"
    show "\<exists>r. ?D ((p # ps) ! k) = Inr r"
    proof (cases k)
      case 0
      from r show ?thesis
        unfolding 0 by (intro exI [of _ r]) simp
    next
      case (Suc j)
      with k have "j < length ps"
        by simp
      with tail obtain r' where "?D (ps ! j) = Inr r'"
        by blast
      then show ?thesis
        unfolding Suc by (intro exI [of _ r']) simp
    qed
  qed
  have le1: "\<not> np_less dp (diffi st1)"
    by (simp add: st1_def np_less_irrefl)
  have mono: "np_less d (diffi st)" if "np_less d (diffi st1)" for d
    using that by (auto simp add: st1_def intro: np_less_trans split: if_splits)
  from IH consider
    (same) "st' = st1"
      "\<forall>k < length ps. \<forall>r. ?D (ps ! k) = Inr r \<longrightarrow> \<not> np_less (fst r) (diffi st1)"
    | (later) k d x M where "k < length ps" "?D (ps ! k) = Inr (d, x, M)"
      "st' = \<lparr>diffi = d, XYZ = Some x, MYZ = Some M\<rparr>" "np_less d (diffi st1)"
      "\<forall>k' < length ps. \<forall>r. ?D (ps ! k') = Inr r \<longrightarrow> \<not> np_less (fst r) d \<and> (k' < k \<longrightarrow> fst r \<noteq> d)"
    by blast
  then have "(st' = st \<and> (\<forall>k < length (p # ps). \<forall>r. ?D ((p # ps) ! k) = Inr r \<longrightarrow>
            \<not> np_less (fst r) (diffi st)))
      \<or> (\<exists>k < length (p # ps). \<exists>d x M. ?D ((p # ps) ! k) = Inr (d, x, M)
            \<and> st' = \<lparr>diffi = d, XYZ = Some x, MYZ = Some M\<rparr>
            \<and> np_less d (diffi st)
            \<and> (\<forall>k' < length (p # ps). \<forall>r. ?D ((p # ps) ! k') = Inr r \<longrightarrow>
                  \<not> np_less (fst r) d \<and> (k' < k \<longrightarrow> fst r \<noteq> d)))"
  proof cases
    case same
    show ?thesis
    proof (cases "np_less dp (diffi st)")
      case False
      then have "st1 = st"
        by (simp add: st1_def)
      with same False r rp have "st' = st \<and> (\<forall>k < length (p # ps). \<forall>r. ?D ((p # ps) ! k) = Inr r \<longrightarrow>
            \<not> np_less (fst r) (diffi st))"
        by (auto simp add: less_Suc_eq_0_disj)
      then show ?thesis
        by blast
    next
      case True
      then have st1: "st1 = \<lparr>diffi = dp, XYZ = Some xp, MYZ = Some Mp\<rparr>"
        by (simp add: st1_def)
      with same(2) have after: "\<forall>k < length ps. \<forall>r. ?D (ps ! k) = Inr r \<longrightarrow> \<not> np_less (fst r) dp"
        by simp
      have "0 < length (p # ps) \<and> ?D ((p # ps) ! 0) = Inr (dp, xp, Mp)
            \<and> st' = \<lparr>diffi = dp, XYZ = Some xp, MYZ = Some Mp\<rparr>
            \<and> np_less dp (diffi st)
            \<and> (\<forall>k' < length (p # ps). \<forall>r. ?D ((p # ps) ! k') = Inr r \<longrightarrow>
                  \<not> np_less (fst r) dp \<and> (k' < 0 \<longrightarrow> fst r \<noteq> dp))"
        using same(1) st1 True r rp after
        by (auto simp add: less_Suc_eq_0_disj np_less_irrefl)
      then show ?thesis
        by blast
    qed
  next
    case later
    from later(4) have lt: "np_less d (diffi st)"
      by (rule mono)
    have first: "\<not> np_less dp d \<and> dp \<noteq> d"
    proof (cases "np_less dp (diffi st)")
      case True
      then have "diffi st1 = dp"
        by (simp add: st1_def)
      with later(4) have "np_less d dp"
        by simp
      then show ?thesis
        using np_less_asym np_less_irrefl by blast
    next
      case False
      with lt have "\<not> np_less dp d"
        using np_less_trans by blast
      moreover from False lt have "dp \<noteq> d"
        by blast
      ultimately show ?thesis
        by blast
    qed
    have "Suc k < length (p # ps) \<and> ?D ((p # ps) ! Suc k) = Inr (d, x, M)
            \<and> st' = \<lparr>diffi = d, XYZ = Some x, MYZ = Some M\<rparr>
            \<and> np_less d (diffi st)
            \<and> (\<forall>k' < length (p # ps). \<forall>r. ?D ((p # ps) ! k') = Inr r \<longrightarrow>
                  \<not> np_less (fst r) d \<and> (k' < Suc k \<longrightarrow> fst r \<noteq> d))"
      using later(1,2,3,5) lt first r rp
      by (auto simp add: less_Suc_eq_0_disj)
    then show ?thesis
      by blast
  qed
  with all show ?case
    by blast
qed

lemma grid_indices_mem:
  "(i, j) \<in> set (grid_indices N MMM) \<longleftrightarrow> 1 \<le> i \<and> i < N \<and> 1 \<le> j \<and> j < MMM"
  by (auto simp add: grid_indices_def)

lemma grid_indices_nth:
  assumes "k < length (grid_indices N MMM)"
  shows "grid_indices N MMM ! k = (1 + k div (MMM - 1), 1 + k mod (MMM - 1))"
proof -
  from assms have k: "k < (N - 1) * (MMM - 1)"
    by (simp add: grid_indices_def)
  then have "0 < MMM - 1"
    by (cases "MMM - 1") simp_all
  with k have "k div (MMM - 1) < N - 1"
    by (simp add: less_mult_imp_div_less)
  moreover from \<open>0 < MMM - 1\<close> have "k mod (MMM - 1) < MMM - 1"
    by simp
  ultimately show ?thesis
    using k by (simp add: grid_indices_def product_nth)
qed

lemma item_update_0: "i \<noteq> 0 \<Longrightarrow> item (a[0 := v]) i = item a i"
  by (simp add: item_def)

lemma diff_at_update_0:
  assumes "1 \<le> fst ij" and "1 \<le> snd ij"
  shows "diff_at f obs (xr[0 := v]) (Ms[0 := w]) ij = diff_at f obs xr Ms ij"
proof -
  from assms have eqs: "item (xr[0 := v]) (fst ij) = item xr (fst ij)"
    "item (Ms[0 := w]) (snd ij) = item Ms (snd ij)"
    by (simp_all add: item_update_0)
  show ?thesis
    unfolding diff_at_def eqs by (rule refl)
qed

lemma printed_Inr:
  "printed st = Inr (x, M) \<longleftrightarrow> XYZ st = Some x \<and> MYZ st = Some M"
  by (simp add: printed_def split: option.splits)

text \<open>
  C1 (the stated coverage fails on the code).  The loops run over
  \<^verbatim>\<open>range(1,N)\<close> and \<^verbatim>\<open>range(1,MMM)\<close>: the index pairs visited are those with
  \<open>1 \<le> i < N\<close> and \<open>1 \<le> j < MMM\<close>.  The first point of the distance grid (\<open>Xlow\<close>) and
  the first point of the mass grid are never simulated: whatever stands there, the result
  of the search is the same.
\<close>

theorem C1_first_grid_points_skipped:
  "(\<forall>i j. (i, j) \<in> set (grid_indices N MMM) \<longleftrightarrow> 1 \<le> i \<and> i < N \<and> 1 \<le> j \<and> j < MMM)
    \<and> linspace Xlow Xhigh (Suc n) ! 0 = Xlow
    \<and> slope_D lib N MMM U K A ClowerD CupperD dCdtreg1 (xrange[0 := x0]) (Msyn[0 := m0])
        = slope_D lib N MMM U K A ClowerD CupperD dCdtreg1 xrange Msyn"
proof -
  let ?f = "syn_slope lib N U K A ClowerD CupperD"
  have "search_step ?f dCdtreg1 (xrange[0 := x0]) (Msyn[0 := m0]) st p
      = search_step ?f dCdtreg1 xrange Msyn st p"
    if "p \<in> set (grid_indices N MMM)" for p st
  proof -
    from that grid_indices_mem [of "fst p" "snd p" N MMM] have "1 \<le> fst p" "1 \<le> snd p"
      by simp_all
    then show ?thesis
      unfolding search_step_diff_at by (simp only: diff_at_update_0)
  qed
  then have "grid_search ?f N MMM dCdtreg1 (xrange[0 := x0]) (Msyn[0 := m0])
      = grid_search ?f N MMM dCdtreg1 xrange Msyn"
    unfolding grid_search_def by (rule for_loop_cong)
  then have "slope_D lib N MMM U K A ClowerD CupperD dCdtreg1 (xrange[0 := x0]) (Msyn[0 := m0])
        = slope_D lib N MMM U K A ClowerD CupperD dCdtreg1 xrange Msyn"
    by (simp add: slope_D_def)
  moreover have "linspace Xlow Xhigh (Suc n) ! 0 = Xlow"
    unfolding linspace_def by (simp add: nth_map_upt del: upt_Suc)
  ultimately show ?thesis
    using grid_indices_mem by blast
qed

text \<open>
  C6 (amended).  The search returns a pair \<open>(x, M)\<close> exactly when every visited grid
  point has been characterized and some visited point has a \<^verbatim>\<open>diff\<close> below \<open>10\<close>, the
  value the running minimum starts from; \<open>(x, M)\<close> is then the visited point of least
  \<^verbatim>\<open>diff\<close>, and among equal ones the first visited (no earlier point has the same
  \<^verbatim>\<open>diff\<close>).  The visiting order is by distance index, then by mass index, so the
  smaller distance wins a tie.
\<close>

theorem C6_first_minimum_below_sentinel:
  assumes "U \<noteq> 0"
  shows "(slope_D lib N MMM U K A ClowerD CupperD dCdtreg1 xrange Msyn = Inr (x, M) \<longleftrightarrow>
      (\<forall>k < length (grid_indices N MMM). \<exists>r.
          diff_at (syn_slope lib N U K A ClowerD CupperD) dCdtreg1 xrange Msyn
            (grid_indices N MMM ! k) = Inr r)
    \<and> (\<exists>k < length (grid_indices N MMM). \<exists>d.
          diff_at (syn_slope lib N U K A ClowerD CupperD) dCdtreg1 xrange Msyn
            (grid_indices N MMM ! k) = Inr (d, x, M)
        \<and> np_less d (Fin 10)
        \<and> (\<forall>k' < length (grid_indices N MMM). \<forall>r.
              diff_at (syn_slope lib N U K A ClowerD CupperD) dCdtreg1 xrange Msyn
                (grid_indices N MMM ! k') = Inr r \<longrightarrow>
              \<not> np_less (fst r) d \<and> (k' < k \<longrightarrow> fst r \<noteq> d))))
    \<and> (\<forall>k < length (grid_indices N MMM).
          grid_indices N MMM ! k = (1 + k div (MMM - 1), 1 + k mod (MMM - 1)))"
proof -
  let ?ps = "grid_indices N MMM"
  let ?f = "syn_slope lib N U K A ClowerD CupperD"
  let ?D = "diff_at ?f dCdtreg1 xrange Msyn"
  let ?st0 = "\<lparr>diffi = Fin 10, XYZ = None, MYZ = None\<rparr>"
  let ?loop = "for_loop (search_step ?f dCdtreg1 xrange Msyn) ?ps ?st0"
  let ?all = "\<forall>k < length ?ps. \<exists>r. ?D (?ps ! k) = Inr r"
  let ?best = "\<lambda>k d. ?D (?ps ! k) = Inr (d, x, M) \<and> np_less d (Fin 10)
        \<and> (\<forall>k' < length ?ps. \<forall>r. ?D (?ps ! k') = Inr r \<longrightarrow>
              \<not> np_less (fst r) d \<and> (k' < k \<longrightarrow> fst r \<noteq> d))"
  have run: "slope_D lib N MMM U K A ClowerD CupperD dCdtreg1 xrange Msyn
      = (case ?loop of Inl e \<Rightarrow> Inl e | Inr st \<Rightarrow> printed st)"
    by (simp add: slope_D_def grid_search_def)
  have returned: "?all \<and> (\<exists>k < length ?ps. \<exists>d. ?best k d)"
    if ret: "slope_D lib N MMM U K A ClowerD CupperD dCdtreg1 xrange Msyn = Inr (x, M)"
  proof -
    from ret obtain st' where loop: "?loop = Inr st'" and pr: "printed st' = Inr (x, M)"
      unfolding run by (cases ?loop) simp_all
    from pr have xy: "XYZ st' = Some x" "MYZ st' = Some M"
      by (simp_all add: printed_Inr)
    then have "st' \<noteq> ?st0"
      by auto
    with for_loop_search_result [OF loop] obtain k d x' M'
      where all: ?all and k: "k < length ?ps" and at: "?D (?ps ! k) = Inr (d, x', M')"
        and st': "st' = \<lparr>diffi = d, XYZ = Some x', MYZ = Some M'\<rparr>"
        and lt: "np_less d (diffi ?st0)"
        and least: "\<forall>k' < length ?ps. \<forall>r. ?D (?ps ! k') = Inr r \<longrightarrow>
              \<not> np_less (fst r) d \<and> (k' < k \<longrightarrow> fst r \<noteq> d)"
      by blast
    from xy st' have "x' = x" "M' = M"
      by simp_all
    with at lt least have "?best k d"
      by simp
    with all k show ?thesis
      by blast
  qed
  have returns: "slope_D lib N MMM U K A ClowerD CupperD dCdtreg1 xrange Msyn = Inr (x, M)"
    if all: ?all and ex: "\<exists>k < length ?ps. \<exists>d. ?best k d"
  proof -
    from ex obtain k d where k: "k < length ?ps" and at: "?D (?ps ! k) = Inr (d, x, M)"
      and lt: "np_less d (Fin 10)"
      and least: "\<forall>k' < length ?ps. \<forall>r. ?D (?ps ! k') = Inr r \<longrightarrow>
              \<not> np_less (fst r) d \<and> (k' < k \<longrightarrow> fst r \<noteq> d)"
      by blast
    from for_loop_search_total [OF all] obtain st' where loop: "?loop = Inr st'"
      by blast
    from at lt k have "\<not> (\<forall>k < length ?ps. \<forall>r. ?D (?ps ! k) = Inr r \<longrightarrow>
            \<not> np_less (fst r) (diffi ?st0))"
      by force
    with for_loop_search_result [OF loop] obtain k2 d2 x2 M2
      where k2: "k2 < length ?ps" and at2: "?D (?ps ! k2) = Inr (d2, x2, M2)"
        and st': "st' = \<lparr>diffi = d2, XYZ = Some x2, MYZ = Some M2\<rparr>"
        and lt2: "np_less d2 (diffi ?st0)"
        and least2: "\<forall>k' < length ?ps. \<forall>r. ?D (?ps ! k') = Inr r \<longrightarrow>
              \<not> np_less (fst r) d2 \<and> (k' < k2 \<longrightarrow> fst r \<noteq> d2)"
      by blast
    from least k2 at2 have a: "\<not> np_less d2 d" "k2 < k \<longrightarrow> d2 \<noteq> d"
      by force+
    from least2 k at have b: "\<not> np_less d d2" "k < k2 \<longrightarrow> d \<noteq> d2"
      by force+
    from lt lt2 have "d \<noteq> NaN" "d2 \<noteq> NaN"
      using np_less_not_NaN by blast+
    with a(1) b(1) have "d = d2"
      using np_less_total by blast
    with a(2) b(2) have "k = k2"
      by (meson nat_neq_iff)
    with at at2 have "x2 = x" "M2 = M"
      by simp_all
    with st' have "printed st' = Inr (x, M)"
      by (simp add: printed_Inr)
    with loop show ?thesis
      unfolding run by simp
  qed
  from returned returns have "slope_D lib N MMM U K A ClowerD CupperD dCdtreg1 xrange Msyn = Inr (x, M)
      \<longleftrightarrow> ?all \<and> (\<exists>k < length ?ps. \<exists>d. ?best k d)"
    by blast
  with grid_indices_nth show ?thesis
    by blast
qed

section \<open>A run of the search on a grid of one visited point\<close>

lemma linspace_2: "linspace a b 2 = [a, b]"
proof -
  have "[0..<2] = [0, Suc 0]"
    by (simp add: upt_rec numeral_2_eq_2)
  then show ?thesis
    by (simp add: linspace_def)
qed

lemma grid_indices_2_2: "grid_indices 2 2 = [(1, 1)]"
proof -
  have "[1..<2] = [1 :: nat]"
    by (simp add: upt_rec numeral_2_eq_2)
  then show ?thesis
    by (simp add: grid_indices_def)
qed

text \<open>The characterization of a curve of two samples whose second sample is the peak.\<close>

lemma characterize_two_samples:
  assumes "0 < c0" and "c0 \<le> 0.999 * c1" and "0.5 * c1 < c0" and "t0 < t1"
  shows "characterize lib [t0, t1] [Fin c0, Fin c1] 0.5 0.999
    = Inr \<lparr>indx1 = 0, indx2 = 1, rows = [(t0, Fin c0), (t1, Fin c1)],
        dCdtreg = Fin ((c1 - c0) / (t1 - t0))\<rparr>"
proof -
  from assms have lt: "c0 < c1"
    by simp
  then have peak: "amax [Fin c0, Fin c1] = Inr (Fin c1)"
    by (simp add: amax_def)
  have lo: "first_above [Fin c0, Fin c1] (np_mul (Fin 0.5) (Fin c1)) = Inr 0"
    using assms(3) by (simp add: first_above_def np_greater_def)
  have up: "first_above [Fin c0, Fin c1] (np_mul (Fin 0.999) (Fin c1)) = Inr 1"
    using assms(1,2) lt by (simp add: first_above_def np_greater_def)
  have "[0..<2] = [0, Suc 0]"
    by (simp add: upt_rec numeral_2_eq_2)
  then have sel: "where_between [t0, t1] t0 t1 = [0, 1]"
    using assms(4) by (simp add: where_between_def)
  have rws: "take_rows [t0, t1] [Fin c0, Fin c1] [0, 1] = Inr [(t0, Fin c0), (t1, Fin c1)]"
    by (simp add: take_rows_def)
  have fin: "finite_rows [(t0, Fin c0), (t1, Fin c1)] = Some [(t0, c0), (t1, c1)]"
    by simp
  have sxx: "Sxx [(t0, c0), (t1, c1)] = (t1 - t0)\<^sup>2 / 2"
    by (simp add: Sxx_def mean_def power2_eq_square field_simps)
  have sxy: "Sxy [(t0, c0), (t1, c1)] = (t1 - t0) * (c1 - c0) / 2"
    by (simp add: Sxy_def mean_def field_simps)
  from assms(4) have nz: "t1 - t0 \<noteq> 0"
    by simp
  have quot: "Sxy [(t0, c0), (t1, c1)] / Sxx [(t0, c0), (t1, c1)] = (c1 - c0) / (t1 - t0)"
  proof -
    have "d * e / 2 / (d\<^sup>2 / 2) = e / d" if "d \<noteq> 0" for d e :: real
      using that by (simp add: power2_eq_square)
    from this [OF nz] show ?thesis
      unfolding sxx sxy .
  qed
  have ols: "ols_slope lib [(t0, Fin c0), (t1, Fin c1)] = Inr (Fin ((c1 - c0) / (t1 - t0)))"
    unfolding ols_slope_def fin quot [symmetric] using nz by (simp add: sxx)
  have it: "item [t0, t1] 0 = Inr t0" "item [t0, t1] 1 = Inr t1"
    by (simp_all add: item_def)
  show ?thesis
    unfolding characterize_def peak front_slope_def lo up sum.case it sel rws ols
    by (rule refl)
qed

lemma exp_11_4_bounds: "121 / 10 < exp (11 / 4 :: real)" "exp (11 / 4 :: real) < 23"
proof -
  have "exp (of_nat 16 * (11 / 64 :: real)) = exp (11 / 64) ^ 16"
    by (rule exp_of_nat_mult)
  then have low: "exp (11 / 4 :: real) = exp (11 / 64) ^ 16"
    by simp
  have "1 + (11 / 64 :: real) \<le> exp (11 / 64)"
    by (rule exp_ge_add_one_self)
  then have "(1 + (11 / 64 :: real)) ^ 16 \<le> exp (11 / 64) ^ 16"
    by (rule power_mono) simp
  moreover have "121 / 10 < (1 + (11 / 64 :: real)) ^ 16"
    by (simp add: power_divide)
  ultimately show "121 / 10 < exp (11 / 4 :: real)"
    unfolding low by linarith
  have "exp (of_nat 4 * (11 / 16 :: real)) = exp (11 / 16) ^ 4"
    by (rule exp_of_nat_mult)
  then have high: "exp (11 / 4 :: real) = exp (11 / 16) ^ 4"
    by simp
  have "exp (11 / 16 :: real) \<le> 1 + 11 / 16 + (11 / 16)\<^sup>2"
    by (rule exp_bound) simp_all
  then have "exp (11 / 16 :: real) ^ 4 \<le> (1 + 11 / 16 + (11 / 16)\<^sup>2) ^ 4"
    by (rule power_mono) simp
  moreover have "(1 + 11 / 16 + (11 / 16 :: real)\<^sup>2) ^ 4 < 23"
    by (simp add: power2_eq_square power_divide)
  ultimately show "exp (11 / 4 :: real) < 23"
    unfolding high by linarith
qed

text \<open>
  The stream \<open>U = 1\<close>, \<open>K = 5.72\<close>, \<open>A = 1\<close>, the distance \<open>x = 14.4\<close> and \<open>N = 2\<close>: the time
  grid is \<open>[1, 144]\<close>, the second sample is the peak, the first lies between half the
  peak and \<open>0.999\<close> times the peak, and the regression runs on both samples.
\<close>

lemma syn_slope_example:
  assumes "0 < M"
  shows "\<exists>s. syn_slope lib 2 1 (143 / 25) 1 0.5 0.999 (72 / 5) M = Inr (Fin s) \<and> 0 < s \<and> s < M"
proof -
  define g where "g = M / sqrt (4 * pi * (143 / 25))"
  define c0 where "c0 = g * exp (- (4489 / 572))"
  define c1 where "c1 = g / 12 * exp (- (729 / 143))"
  have "1 \<le> 4 * pi * (143 / 25)"
    using pi_ge_two by simp
  then have root: "1 \<le> sqrt (4 * pi * (143 / 25))"
    by simp
  with assms have g: "0 < g" "g \<le> M"
    by (simp_all add: g_def field_simps)
  have "4 * pi * (143 / 25) * 144 = 12\<^sup>2 * (4 * pi * (143 / 25))"
    by (simp add: power2_eq_square)
  then have root144: "sqrt (4 * pi * (143 / 25) * 144) = 12 * sqrt (4 * pi * (143 / 25))"
    by (simp only: real_sqrt_mult real_sqrt_abs)
  have e0: "- (72 / 5 - 1 * 1)\<^sup>2 / (4 * (143 / 25) * 1) = - (4489 / 572 :: real)"
    by (simp add: power2_eq_square)
  have e1: "- (72 / 5 - 1 * 144)\<^sup>2 / (4 * (143 / 25) * 144) = - (729 / 143 :: real)"
    by (simp add: power2_eq_square)
  have f0: "taylor_formula M 1 (143 / 25) 1 (72 / 5) 1 = c0"
    unfolding taylor_formula_def e0 c0_def g_def by simp
  have f1: "taylor_formula M 1 (143 / 25) 1 (72 / 5) 144 = c1"
    unfolding taylor_formula_def e1 c1_def g_def root144 by simp
  have p0: "taylor_point M 1 (143 / 25) 1 (72 / 5) 1 = Fin c0"
    unfolding f0 [symmetric] by (rule taylor_point_finite) simp_all
  have p1: "taylor_point M 1 (143 / 25) 1 (72 / 5) 144 = Fin c1"
    unfolding f1 [symmetric] by (rule taylor_point_finite) simp_all
  have "- (729 / 143 :: real) = - (4489 / 572) + 11 / 4"
    by simp
  then have "exp (- (729 / 143 :: real)) = exp (- (4489 / 572)) * exp (11 / 4)"
    by (simp only: exp_add)
  then have c1_c0: "c1 = c0 * (exp (11 / 4) / 12)"
    by (simp add: c1_def c0_def)
  have c0: "0 < c0" "c0 \<le> g"
    using g(1) by (simp_all add: c0_def mult_le_cancel_left2)
  from exp_11_4_bounds have ratio: "121 / 120 < exp (11 / 4 :: real) / 12" "exp (11 / 4 :: real) / 12 < 23 / 12"
    by simp_all
  from ratio(1) c0(1) have "c0 * (121 / 120) < c1"
    unfolding c1_c0 by (simp only: mult_less_cancel_left_pos)
  then have lower: "c0 \<le> 0.999 * c1"
    using c0(1) by simp
  from ratio(2) c0(1) have above: "c1 < c0 * (23 / 12)"
    unfolding c1_c0 by (simp only: mult_less_cancel_left_pos)
  then have half: "0.5 * c1 < c0"
    using c0(1) by simp
  have tend: "10 * ((72 / 5 :: real) / 1) = 144"
    by simp
  have curve: "taylorU 1 [1, 144] M 1 (143 / 25) (72 / 5) = [Fin c0, Fin c1]"
    by (simp add: taylorU_def p0 p1)
  note ch = characterize_two_samples [OF c0(1) lower half, of 1 144 lib]
  have run: "syn_slope lib 2 1 (143 / 25) 1 0.5 0.999 (72 / 5) M = Inr (Fin ((c1 - c0) / (144 - 1)))"
    unfolding syn_slope_def tend Let_def linspace_2 curve using ch by simp
  from lower c0(1) have "c0 < c1"
    by simp
  then have pos: "0 < (c1 - c0) / (144 - 1)"
    by simp
  from above c0 g(2) assms have "(c1 - c0) / (144 - 1) < M"
    by simp
  with run pos show ?thesis
    by blast
qed

theorem C6_first_minimum_below_sentinel_witness:
  "slope_D (\<lambda>r. Inl ValueError) 2 2 1 (143 / 25) 1 0.5 0.999 (Fin 0)
      (linspace 1 (72 / 5) 2) (linspace (1 - 1 * 0.30) (1 + 1 * 0.30) 2)
    = Inr (72 / 5, 13 / 10)"
proof -
  let ?lib = "\<lambda>r :: (real \<times> npfloat) list. (Inl ValueError :: error + npfloat)"
  let ?f = "syn_slope ?lib 2 1 (143 / 25) 1 0.5 0.999"
  let ?xr = "linspace 1 (72 / 5) 2"
  let ?Ms = "linspace (1 - 1 * 0.30) (1 + 1 * 0.30) 2"
  from syn_slope_example [of "13 / 10" ?lib] obtain s
    where s: "?f (72 / 5) (13 / 10) = Inr (Fin s)" "0 < s" "s < 13 / 10"
    by auto
  have xr: "item ?xr 1 = Inr (72 / 5)" and Ms: "item ?Ms 1 = Inr (13 / 10)"
    by (simp_all add: linspace_2 item_def)
  have at: "diff_at ?f (Fin 0) ?xr ?Ms (1, 1) = Inr (Fin \<bar>s\<bar>, 72 / 5, 13 / 10)"
    unfolding diff_at_def fst_conv snd_conv xr Ms sum.case s
    by (simp add: np_sub_def)
  have one: "length (grid_indices 2 2) = 1" "grid_indices 2 2 ! 0 = (1, 1)"
    by (simp_all add: grid_indices_2_2)
  have every: "\<forall>k < length (grid_indices 2 2). \<exists>r.
      diff_at ?f (Fin 0) ?xr ?Ms (grid_indices 2 2 ! k) = Inr r"
  proof (intro allI impI)
    fix k
    assume "k < length (grid_indices 2 2)"
    then have "k = 0"
      by (simp add: one)
    show "\<exists>r. diff_at ?f (Fin 0) ?xr ?Ms (grid_indices 2 2 ! k) = Inr r"
      unfolding \<open>k = 0\<close> one(2) at by blast
  qed
  have least: "\<forall>k' < length (grid_indices 2 2). \<forall>r.
      diff_at ?f (Fin 0) ?xr ?Ms (grid_indices 2 2 ! k') = Inr r \<longrightarrow>
        \<not> np_less (fst r) (Fin \<bar>s\<bar>) \<and> (k' < 0 \<longrightarrow> fst r \<noteq> Fin \<bar>s\<bar>)"
  proof (intro allI impI)
    fix k' r
    assume "k' < length (grid_indices 2 2)"
      and "diff_at ?f (Fin 0) ?xr ?Ms (grid_indices 2 2 ! k') = Inr r"
    then have "k' = 0" and "diff_at ?f (Fin 0) ?xr ?Ms (grid_indices 2 2 ! 0) = Inr r"
      by (simp_all add: one)
    then have "r = (Fin \<bar>s\<bar>, 72 / 5, 13 / 10)"
      unfolding one(2) at by simp
    then show "\<not> np_less (fst r) (Fin \<bar>s\<bar>) \<and> (k' < 0 \<longrightarrow> fst r \<noteq> Fin \<bar>s\<bar>)"
      by simp
  qed
  have below: "np_less (Fin \<bar>s\<bar>) (Fin 10)"
    using s(2,3) by simp
  have "\<exists>k < length (grid_indices 2 2). \<exists>d.
      diff_at ?f (Fin 0) ?xr ?Ms (grid_indices 2 2 ! k) = Inr (d, 72 / 5, 13 / 10)
      \<and> np_less d (Fin 10)
      \<and> (\<forall>k' < length (grid_indices 2 2). \<forall>r.
            diff_at ?f (Fin 0) ?xr ?Ms (grid_indices 2 2 ! k') = Inr r \<longrightarrow>
              \<not> np_less (fst r) d \<and> (k' < k \<longrightarrow> fst r \<noteq> d))"
  proof (intro exI [of _ 0] exI [of _ "Fin \<bar>s\<bar>"] conjI)
    show "0 < length (grid_indices 2 2)"
      by (simp add: one)
    show "diff_at ?f (Fin 0) ?xr ?Ms (grid_indices 2 2 ! 0) = Inr (Fin \<bar>s\<bar>, 72 / 5, 13 / 10)"
      using at by (simp only: one)
  qed (rule below least)+
  with every have rhs: "(\<forall>k < length (grid_indices 2 2). \<exists>r.
      diff_at ?f (Fin 0) ?xr ?Ms (grid_indices 2 2 ! k) = Inr r)
    \<and> (\<exists>k < length (grid_indices 2 2). \<exists>d.
      diff_at ?f (Fin 0) ?xr ?Ms (grid_indices 2 2 ! k) = Inr (d, 72 / 5, 13 / 10)
      \<and> np_less d (Fin 10)
      \<and> (\<forall>k' < length (grid_indices 2 2). \<forall>r.
            diff_at ?f (Fin 0) ?xr ?Ms (grid_indices 2 2 ! k') = Inr r \<longrightarrow>
              \<not> np_less (fst r) d \<and> (k' < k \<longrightarrow> fst r \<noteq> d)))"
    by (rule conjI)
  have U: "(1 :: real) \<noteq> 0"
    by simp
  from C6_first_minimum_below_sentinel [OF U, THEN conjunct1, THEN iffD2, OF rhs]
  show ?thesis .
qed

text \<open>
  C6 (as stated, it fails).  With the same grid and an observed slope of \<open>100\<close>, the one
  visited grid point has a finite \<^verbatim>\<open>diff\<close>, the least over the visited points; it is
  not below \<open>10\<close>, the branch never runs, \<^verbatim>\<open>XYZ\<close> and \<^verbatim>\<open>MYZ\<close> are never assigned and
  the cell ends in \<^verbatim>\<open>NameError\<close> instead of returning that grid point.
\<close>

theorem C6_sentinel_counterexample:
  "slope_D (\<lambda>r. Inl ValueError) 2 2 1 (143 / 25) 1 0.5 0.999 (Fin 100)
      (linspace 1 (72 / 5) 2) (linspace (1 - 1 * 0.30) (1 + 1 * 0.30) 2)
    = Inl NameError
  \<and> (\<exists>d. diff_at (syn_slope (\<lambda>r. Inl ValueError) 2 1 (143 / 25) 1 0.5 0.999) (Fin 100)
        (linspace 1 (72 / 5) 2) (linspace (1 - 1 * 0.30) (1 + 1 * 0.30) 2) (grid_indices 2 2 ! 0)
      = Inr (Fin d, 72 / 5, 13 / 10))"
proof -
  let ?lib = "\<lambda>r :: (real \<times> npfloat) list. (Inl ValueError :: error + npfloat)"
  let ?f = "syn_slope ?lib 2 1 (143 / 25) 1 0.5 0.999"
  let ?xr = "linspace 1 (72 / 5) 2"
  let ?Ms = "linspace (1 - 1 * 0.30) (1 + 1 * 0.30) 2"
  let ?st0 = "\<lparr>diffi = Fin 10, XYZ = None, MYZ = None\<rparr>"
  from syn_slope_example [of "13 / 10" ?lib] obtain s
    where s: "?f (72 / 5) (13 / 10) = Inr (Fin s)" "0 < s" "s < 13 / 10"
    by auto
  have xr: "item ?xr 1 = Inr (72 / 5)" and Ms: "item ?Ms 1 = Inr (13 / 10)"
    by (simp_all add: linspace_2 item_def)
  have at: "diff_at ?f (Fin 100) ?xr ?Ms (1, 1) = Inr (Fin \<bar>s - 100\<bar>, 72 / 5, 13 / 10)"
    unfolding diff_at_def fst_conv snd_conv xr Ms sum.case s
    by (simp add: np_sub_def)
  have "\<not> np_less (Fin \<bar>s - 100\<bar>) (Fin 10)"
    using s(2,3) by simp
  then have step: "search_step ?f (Fin 100) ?xr ?Ms ?st0 (1, 1) = Inr ?st0"
    unfolding search_step_diff_at at by simp
  have "grid_search ?f 2 2 (Fin 100) ?xr ?Ms = Inr ?st0"
    unfolding grid_search_def grid_indices_2_2 for_loop.simps step by simp
  then have "slope_D ?lib 2 2 1 (143 / 25) 1 0.5 0.999 (Fin 100) ?xr ?Ms = Inl NameError"
    unfolding slope_D_def by (simp add: printed_def)
  moreover have "diff_at ?f (Fin 100) ?xr ?Ms (grid_indices 2 2 ! 0)
      = Inr (Fin \<bar>s - 100\<bar>, 72 / 5, 13 / 10)"
    using at by (simp add: grid_indices_2_2)
  ultimately show ?thesis
    by blast
qed

section \<open>Properties of the Nonlinear Fit Estimator\<close>

text \<open>
  C9 (as stated, it fails).  The cell has no check on the parameters \<^verbatim>\<open>curve_fit\<close>
  hands back: when the optimizer yields \<open>K = -1\<close> and \<open>U = -2\<close>, these are the result.
\<close>

theorem C9_no_positivity_check_counterexample:
  "optimize_K_U (\<lambda>f t C p0. Inr [Fin (- 1), Fin (- 2)]) 1000 1 88 [1, 31, 61] [Fin 0, Fin 2, Fin 1]
    = Inr (Fin (- 1), Fin (- 2))"
  by (simp add: optimize_K_U_def item_def)

text \<open>
  C9 (amended).  The estimator fails exactly when the optimizer raises, with the
  optimizer's error; otherwise it returns the two parameters the optimizer found as
  \<open>K\<close> and \<open>U\<close>, unchecked: nothing makes a returned \<open>K\<close> or \<open>U\<close> positive.
\<close>

theorem C9_optimizer_result_unchecked:
  "(\<forall>e. curve_fit (taylor2nd M A x) t C [0.1, 0.1] = Inl e \<longrightarrow>
        optimize_K_U curve_fit M A x t C = Inl e)
    \<and> (\<forall>K U. curve_fit (taylor2nd M A x) t C [0.1, 0.1] = Inr [K, U] \<longrightarrow>
        optimize_K_U curve_fit M A x t C = Inr (K, U))
    \<and> (\<forall>e. optimize_K_U curve_fit M A x t C = Inl e \<longrightarrow>
        curve_fit (taylor2nd M A x) t C [0.1, 0.1] = Inl e
      \<or> (\<exists>popt. curve_fit (taylor2nd M A x) t C [0.1, 0.1] = Inr popt \<and> length popt < 2))"
proof -
  have "optimize_K_U curve_fit M A x t C = Inl e"
    if "curve_fit (taylor2nd M A x) t C [0.1, 0.1] = Inl e" for e
    unfolding optimize_K_U_def that by simp
  moreover have "optimize_K_U curve_fit M A x t C = Inr (K, U)"
    if "curve_fit (taylor2nd M A x) t C [0.1, 0.1] = Inr [K, U]" for K U
    unfolding optimize_K_U_def that by (simp add: item_def)
  moreover have "curve_fit (taylor2nd M A x) t C [0.1, 0.1] = Inl e
      \<or> (\<exists>popt. curve_fit (taylor2nd M A x) t C [0.1, 0.1] = Inr popt \<and> length popt < 2)"
    if "optimize_K_U curve_fit M A x t C = Inl e" for e
  proof (cases "curve_fit (taylor2nd M A x) t C [0.1, 0.1]")
    case (Inl e')
    with that show ?thesis
      unfolding optimize_K_U_def by simp
  next
    case (Inr popt)
    have "length popt < 2"
    proof (rule ccontr)
      assume "\<not> length popt < 2"
      then have "0 < length popt" "1 < length popt"
        by linarith+
      then have "item popt 0 = Inr (popt ! 0)" "item popt 1 = Inr (popt ! 1)"
        unfolding item_def by simp_all
      with that show False
        unfolding optimize_K_U_def Inr by simp
    qed
    with Inr show ?thesis
      by blast
  qed
  ultimately show ?thesis
    by blast
qed

theorem C9_optimizer_result_unchecked_witness:
  "optimize_K_U (\<lambda>f t C p0. Inl RuntimeError) 1000 1 88 [1, 31, 61] [Fin 0, Fin 2, Fin 1]
      = Inl RuntimeError
    \<and> optimize_K_U (\<lambda>f t C p0. Inr [Fin 0.367, Fin 0.157]) 1000 1 88 [1, 31, 61] [Fin 0, Fin 2, Fin 1]
      = Inr (Fin 0.367, Fin 0.157)"
proof -
  note fails = C9_optimizer_result_unchecked
    [of "\<lambda>f t C p0. Inl RuntimeError" 1000 1 88 "[1, 31, 61]" "[Fin 0, Fin 2, Fin 1]",
      THEN conjunct1, rule_format, OF refl]
  note returns = C9_optimizer_result_unchecked
    [of "\<lambda>f t C p0. Inr [Fin 0.367, Fin 0.157]" 1000 1 88 "[1, 31, 61]" "[Fin 0, Fin 2, Fin 1]",
      THEN conjunct2, THEN conjunct1, rule_format, OF refl]
  from fails returns show ?thesis
    by (rule conjI)
qed

section \<open>When the bound searches succeed\<close>

text \<open>
  C10 (as stated, it fails).  A strictly positive maximum does not make the searches
  succeed, and \<open>lo \<le> up\<close> does not make the window non-empty.  At \<open>A = 0\<close> the Forward
  Model returns a curve whose maximum is \<^verbatim>\<open>inf\<close>: the threshold \<open>0.5 \<sqdot> inf\<close> is
  \<^verbatim>\<open>inf\<close>, no sample exceeds it and the lookup raises \<^verbatim>\<open>IndexError\<close>.  On the
  descending time grid \<^verbatim>\<open>linspace(1, 0.5, 2)\<close> (a horizon \<open>10 x / U\<close> below \<open>1\<close>) the
  searches find \<open>lo = 0\<close> and \<open>up = 1\<close>, and no time lies in \<open>[t\<^sub>l\<^sub>o, t\<^sub>u\<^sub>p] = [1, 0.5]\<close>:
  the front is empty.
\<close>

theorem C10_infinite_peak_counterexample:
  "amax (taylorU 0 [1] 1 1 1 1) = Inr PInf
    \<and> np_less (Fin 0) PInf
    \<and> first_above (taylorU 0 [1] 1 1 1 1) (np_mul (Fin 0.5) PInf) = Inl IndexError
    \<and> characterize (\<lambda>r. Inr (Fin 0)) [1] (taylorU 0 [1] 1 1 1 1) 0.5 0.999 = Inl IndexError
    \<and> amax [Fin 1.5, Fin 2] = Inr (Fin 2)
    \<and> first_above [Fin 1.5, Fin 2] (np_mul (Fin 0.5) (Fin 2)) = Inr 0
    \<and> first_above [Fin 1.5, Fin 2] (np_mul (Fin 0.999) (Fin 2)) = Inr 1
    \<and> where_between (linspace 1 0.5 2) (linspace 1 0.5 2 ! 0) (linspace 1 0.5 2 ! 1) = []"
proof -
  have "0 < sqrt (4 * pi)"
    using pi_gt_zero by simp
  then have "taylor_point 1 1 1 0 1 1 = PInf"
    by (simp add: taylor_point_def inf_times_def)
  then have curve: "taylorU 0 [1] 1 1 1 1 = [PInf]"
    by (simp add: taylorU_def)
  have peak: "amax [PInf] = Inr PInf"
    by (simp add: amax_def)
  have lower: "first_above [PInf] (np_mul (Fin 0.5) PInf) = Inl IndexError"
    by (simp add: first_above_def np_greater_def inf_times_def)
  have ch: "characterize (\<lambda>r. Inr (Fin 0)) [1] [PInf] 0.5 0.999 = Inl IndexError"
    unfolding characterize_def peak sum.case front_slope_def lower by simp
  have two: "amax [Fin 1.5, Fin 2] = Inr (Fin 2)"
    by (simp add: amax_def)
  have lo: "first_above [Fin 1.5, Fin 2] (np_mul (Fin 0.5) (Fin 2)) = Inr 0"
    by (simp add: first_above_def np_greater_def)
  have up: "first_above [Fin 1.5, Fin 2] (np_mul (Fin 0.999) (Fin 2)) = Inr 1"
    by (simp add: first_above_def np_greater_def)
  have "[0..<2] = [0, Suc 0]"
    by (simp add: upt_rec numeral_2_eq_2)
  then have empty: "where_between (linspace 1 0.5 2) (linspace 1 0.5 2 ! 0) (linspace 1 0.5 2 ! 1) = []"
    by (simp add: linspace_2 where_between_def)
  have inf: "np_less (Fin 0) PInf"
    by simp
  show ?thesis
    unfolding curve using peak inf lower ch two lo up empty by (intro conjI)
qed

lemma np_greater_lower_threshold:
  assumes "np_less thr_lo thr_up \<or> thr_lo = thr_up" and "np_greater c thr_up"
  shows "np_greater c thr_lo"
  using assms np_less_trans by (auto simp add: np_greater_def)

text \<open>
  C10 (amended).  On a series whose maximum strictly exceeds the upper threshold the
  code computes, with a lower threshold that is not above the upper one, both searches
  succeed: the element at the argmax exceeds both thresholds.  The indices found satisfy
  \<open>lo \<le> up \<le> argmax\<close>, so the \<^verbatim>\<open>IndexError\<close> branch of the lookup is not taken and,
  for times as many as the values, the characterization fails only if the regression
  does.  When the times are moreover in ascending order, the rising front holds the
  samples \<open>lo\<close> and \<open>up\<close> and is not empty.
\<close>

theorem C10_bounds_found_below_peak:
  assumes "amax C = Inr peak"
    and "np_greater peak thr_up"
    and "np_less thr_lo thr_up \<or> thr_lo = thr_up"
  shows "\<exists>lo up pk.
      first_above C thr_lo = Inr lo
    \<and> first_above C thr_up = Inr up
    \<and> argmax C = Inr pk
    \<and> lo \<le> up \<and> up \<le> pk \<and> pk < length C
    \<and> (thr_lo = np_mul (Fin lowerFraction) peak \<and> thr_up = np_mul (Fin upperFraction) peak
          \<and> length t = length C \<longrightarrow>
         characterize lib t C lowerFraction upperFraction =
           (case ols_slope lib (filter (\<lambda>p. t ! lo \<le> fst p \<and> fst p \<le> t ! up) (zip t C)) of
              Inl e \<Rightarrow> Inl e
            | Inr b \<Rightarrow> Inr \<lparr>indx1 = lo, indx2 = up,
                rows = filter (\<lambda>p. t ! lo \<le> fst p \<and> fst p \<le> t ! up) (zip t C), dCdtreg = b\<rparr>))
    \<and> (length t = length C \<and> sorted t \<longrightarrow>
         lo \<in> set (where_between t (t ! lo) (t ! up))
       \<and> up \<in> set (where_between t (t ! lo) (t ! up))
       \<and> (\<exists>r. take_rows t C (where_between t (t ! lo) (t ! up)) = Inr r \<and> r \<noteq> []))"
proof -
  from argmax_Inr [OF assms(1)] obtain pk
    where pk: "argmax C = Inr pk" "pk < length C" "C ! pk = peak"
    by blast
  from assms(2) have above: "np_greater (C ! pk) thr_up"
    by (simp add: pk(3))
  with pk(2) have "first_index (\<lambda>c. np_greater c thr_up) C \<noteq> None"
    by (auto simp add: first_index_None)
  then obtain up where up: "first_index (\<lambda>c. np_greater c thr_up) C = Some up"
    by auto
  then have "\<forall>j < up. \<not> np_greater (C ! j) thr_up"
    by (simp add: first_index_Some)
  with above have "up \<le> pk"
    by (meson not_le)
  have "\<And>c. np_greater c thr_up \<Longrightarrow> np_greater c thr_lo"
    using assms(3) by (rule np_greater_lower_threshold)
  with first_index_mono [OF up, of "\<lambda>c. np_greater c thr_lo"]
  obtain lo where lo: "lo \<le> up" "first_index (\<lambda>c. np_greater c thr_lo) C = Some lo"
    by blast
  have fa: "first_above C thr_lo = Inr lo" "first_above C thr_up = Inr up"
    by (simp_all add: first_above_def lo(2) up)
  have run: "characterize lib t C lowerFraction upperFraction =
           (case ols_slope lib (filter (\<lambda>p. t ! lo \<le> fst p \<and> fst p \<le> t ! up) (zip t C)) of
              Inl e \<Rightarrow> Inl e
            | Inr b \<Rightarrow> Inr \<lparr>indx1 = lo, indx2 = up,
                rows = filter (\<lambda>p. t ! lo \<le> fst p \<and> fst p \<le> t ! up) (zip t C), dCdtreg = b\<rparr>)"
    if "thr_lo = np_mul (Fin lowerFraction) peak \<and> thr_up = np_mul (Fin upperFraction) peak
          \<and> length t = length C"
  proof -
    from that fa have "length t = length C"
      and "first_above C (np_mul (Fin lowerFraction) peak) = Inr lo"
      and "first_above C (np_mul (Fin upperFraction) peak) = Inr up"
      by simp_all
    from front_slope_found [OF this, of lib] show ?thesis
      unfolding characterize_def assms(1) by simp
  qed
  have window: "lo \<in> set (where_between t (t ! lo) (t ! up))
       \<and> up \<in> set (where_between t (t ! lo) (t ! up))
       \<and> (\<exists>r. take_rows t C (where_between t (t ! lo) (t ! up)) = Inr r \<and> r \<noteq> [])"
    if "length t = length C \<and> sorted t"
  proof -
    from that have len: "length t = length C" and "sorted t"
      by simp_all
    have "up < length t"
      using \<open>up \<le> pk\<close> pk(2) len by simp
    with lo(1) \<open>sorted t\<close> have "t ! lo \<le> t ! up"
      by (simp add: sorted_nth_mono)
    with \<open>up < length t\<close> lo(1) have mem: "lo \<in> set (where_between t (t ! lo) (t ! up))"
      "up \<in> set (where_between t (t ! lo) (t ! up))"
      by (simp_all add: where_between_def)
    have "list_all (\<lambda>i. i < length C) (where_between t (t ! lo) (t ! up))"
      by (simp add: where_between_def list_all_iff len)
    then have "take_rows t C (where_between t (t ! lo) (t ! up))
        = Inr (map (\<lambda>i. (t ! i, C ! i)) (where_between t (t ! lo) (t ! up)))"
      by (simp add: take_rows_def)
    moreover from mem(1) have "map (\<lambda>i. (t ! i, C ! i)) (where_between t (t ! lo) (t ! up)) \<noteq> []"
      by auto
    ultimately show ?thesis
      using mem by blast
  qed
  from fa pk(1,2) lo(1) \<open>up \<le> pk\<close> run window show ?thesis
    by blast
qed

theorem C10_bounds_found_below_peak_witness:
  "\<exists>lo up pk.
      first_above [Fin 0, Fin 6, Fin 10, Fin 4] (np_mul (Fin 0.5) (Fin 10)) = Inr lo
    \<and> first_above [Fin 0, Fin 6, Fin 10, Fin 4] (np_mul (Fin 0.999) (Fin 10)) = Inr up
    \<and> argmax [Fin 0, Fin 6, Fin 10, Fin 4] = Inr pk
    \<and> lo \<le> up \<and> up \<le> pk \<and> pk < length [Fin 0, Fin 6, Fin 10, Fin 4]
    \<and> lo \<in> set (where_between [1, 2, 3, 4] ([1, 2, 3, 4] ! lo) ([1, 2, 3, 4] ! up))
    \<and> up \<in> set (where_between [1, 2, 3, 4] ([1, 2, 3, 4] ! lo) ([1, 2, 3, 4] ! up))"
proof -
  have peak: "amax [Fin 0, Fin 6, Fin 10, Fin 4] = Inr (Fin 10)"
    by (simp add: amax_def)
  have above: "np_greater (Fin 10) (np_mul (Fin 0.999) (Fin 10))"
    by (simp add: np_greater_def)
  have order: "np_less (np_mul (Fin 0.5) (Fin 10)) (np_mul (Fin 0.999) (Fin 10))
      \<or> np_mul (Fin 0.5) (Fin 10) = np_mul (Fin 0.999) (Fin 10)"
    by simp
  have s: "length [1, 2, 3, 4 :: real] = length [Fin 0, Fin 6, Fin 10, Fin 4] \<and> sorted [1, 2, 3, 4 :: real]"
    by simp
  from C10_bounds_found_below_peak [OF peak above order, of _ _ "[1, 2, 3, 4]"] s
  show ?thesis
    by blast
qed

section \<open>When the search fails\<close>












end
